theory Spec2Isabelle
  imports Complex_Main
begin

text \<open>
  A shallow embedding of \<^verbatim>\<open>src/components/Calculator.tsx\<close>: the expression engine
  (\<^verbatim>\<open>toRPN\<close>, \<^verbatim>\<open>evalRPN\<close>, \<^verbatim>\<open>formatNumber\<close>) and the editing operations of the component,
  each as a function from the session before a key press to the session after it.
  The component's three state variables form the record \<open>state\<close>; an editing operation
  reads the values of the last render and its updates are all in place before the next
  key press, so state passing is what the component does between two events.
  Strings are lists of characters; every text the operations themselves write is ASCII.
\<close>

section \<open>The number type of the host language\<close>

text \<open>
  The calculator computes with the \<^verbatim>\<open>number\<close> type of TypeScript: IEEE-754 binary64.
  A value is not-a-number, an infinity, negative zero, or a finite rational;
  \<open>Val 0\<close> is positive zero. The results of arithmetic and of parsing are rounded to the
  nearest binary64 value (ties to even) by \<open>round64\<close>, so the operations produce binary64
  values only. The type has more values than that (every rational), and the theorems
  below hold for all of them.
\<close>

datatype number = NaN | PosInf | NegInf | NegZero | Val rat

fun rat_of :: "number \<Rightarrow> rat" where
  "rat_of (Val q) = q"
| "rat_of _ = 0"

definition is_inf :: "number \<Rightarrow> bool" where
  "is_inf n = (n = PosInf \<or> n = NegInf)"

definition is_zero :: "number \<Rightarrow> bool" where
  "is_zero n = (n = NegZero \<or> n = Val 0)"

definition is_neg :: "number \<Rightarrow> bool" where
  "is_neg n = (n = NegInf \<or> n = NegZero \<or> rat_of n < 0)"

definition signed_inf :: "bool \<Rightarrow> number" where
  "signed_inf neg = (if neg then NegInf else PosInf)"

definition signed_zero :: "bool \<Rightarrow> number" where
  "signed_zero neg = (if neg then NegZero else Val 0)"

text \<open>\<open>digits_len b x\<close> is the number of base-\<open>b\<close> digits of the integer \<open>x > 0\<close>.\<close>

function digits_len :: "int \<Rightarrow> int \<Rightarrow> int" where
  "digits_len b x = (if 0 < x \<and> 1 < b then digits_len b (x div b) + 1 else 0)"
  by pat_completeness auto
termination
  by (relation "measure (\<lambda>(b, x). nat x)") (auto intro: int_div_less_self)

declare digits_len.simps [simp del]

text \<open>\<open>scale b k x\<close> is \<open>x * b ^ k\<close> for an integer exponent \<open>k\<close> of either sign.\<close>

definition scale :: "int \<Rightarrow> int \<Rightarrow> rat \<Rightarrow> rat" where
  "scale b k x = (if 0 \<le> k then x * of_int b ^ nat k else x / of_int b ^ nat (- k))"

text \<open>\<open>ilog b q\<close> is the integer \<open>e\<close> with \<open>b ^ e \<le> q < b ^ (e + 1)\<close>, for \<open>q > 0\<close>.\<close>

definition ilog :: "int \<Rightarrow> rat \<Rightarrow> int" where
  "ilog b q =
     (if 1 \<le> q then digits_len b \<lfloor>q\<rfloor> - 1
      else
        let j = digits_len b \<lfloor>1 / q\<rfloor> - 1
        in if scale b j q = 1 then - j else - j - 1)"

definition round_half_even :: "rat \<Rightarrow> int" where
  "round_half_even x =
     (let f = \<lfloor>x\<rfloor>; r = x - of_int f
      in if r < 1 / 2 then f
         else if 1 / 2 < r then f + 1
         else if even f then f else f + 1)"

definition round64 :: "rat \<Rightarrow> number" where
  "round64 q =
     (if q = 0 then Val 0
      else
        let a = \<bar>q\<bar>;
            p = max (ilog 2 a - 52) (- 1074);
            m = round_half_even (scale 2 (- p) a);
            v = scale 2 p (of_int m)
        in if 2 ^ 1024 \<le> v then signed_inf (q < 0)
           else if m = 0 then signed_zero (q < 0)
           else Val (if q < 0 then - v else v))"

definition num_neg :: "number \<Rightarrow> number" where
  "num_neg n =
     (case n of NaN \<Rightarrow> NaN | PosInf \<Rightarrow> NegInf | NegInf \<Rightarrow> PosInf
      | NegZero \<Rightarrow> Val 0
      | Val q \<Rightarrow> if q = 0 then NegZero else Val (- q))"

definition num_add :: "number \<Rightarrow> number \<Rightarrow> number" where
  "num_add a b =
     (if a = NaN \<or> b = NaN then NaN
      else if is_inf a then (if is_inf b \<and> a \<noteq> b then NaN else a)
      else if is_inf b then b
      else if a = NegZero then b
      else if b = NegZero then a
      else if rat_of a + rat_of b = 0 then Val 0
      else round64 (rat_of a + rat_of b))"

definition num_sub :: "number \<Rightarrow> number \<Rightarrow> number" where
  "num_sub a b = num_add a (num_neg b)"

definition num_mul :: "number \<Rightarrow> number \<Rightarrow> number" where
  "num_mul a b =
     (if a = NaN \<or> b = NaN then NaN
      else if is_inf a \<or> is_inf b then
        (if is_zero a \<or> is_zero b then NaN else signed_inf (is_neg a \<noteq> is_neg b))
      else if is_zero a \<or> is_zero b then signed_zero (is_neg a \<noteq> is_neg b)
      else round64 (rat_of a * rat_of b))"

definition num_div :: "number \<Rightarrow> number \<Rightarrow> number" where
  "num_div a b =
     (if a = NaN \<or> b = NaN then NaN
      else if is_inf a then
        (if is_inf b then NaN else signed_inf (is_neg a \<noteq> is_neg b))
      else if is_inf b then signed_zero (is_neg a \<noteq> is_neg b)
      else if is_zero b then
        (if is_zero a then NaN else signed_inf (is_neg a \<noteq> is_neg b))
      else if is_zero a then signed_zero (is_neg a \<noteq> is_neg b)
      else round64 (rat_of a / rat_of b))"

text \<open>\<^verbatim>\<open>a === b\<close> on numbers: not-a-number equals nothing, the two zeros are equal.\<close>

definition strict_eq :: "number \<Rightarrow> number \<Rightarrow> bool" where
  "strict_eq a b =
     (a \<noteq> NaN \<and> b \<noteq> NaN \<and> (a = b \<or> (is_zero a \<and> is_zero b)))"

text \<open>\<^verbatim>\<open>a < b\<close> and \<^verbatim>\<open>a >= b\<close> on numbers: both are false when an operand is not-a-number.\<close>

definition num_lt :: "number \<Rightarrow> number \<Rightarrow> bool" where
  "num_lt a b =
     (a \<noteq> NaN \<and> b \<noteq> NaN \<and> a \<noteq> PosInf \<and> b \<noteq> NegInf \<and>
      (a = NegInf \<or> b = PosInf \<or> rat_of a < rat_of b))"

definition num_ge :: "number \<Rightarrow> number \<Rightarrow> bool" where
  "num_ge a b = (a \<noteq> NaN \<and> b \<noteq> NaN \<and> \<not> num_lt a b)"

definition isFinite :: "number \<Rightarrow> bool" where
  "isFinite n = (n \<noteq> NaN \<and> n \<noteq> PosInf \<and> n \<noteq> NegInf)"

definition isNaN :: "number \<Rightarrow> bool" where
  "isNaN n = (n = NaN)"

definition Math_abs :: "number \<Rightarrow> number" where
  "Math_abs n =
     (case n of NaN \<Rightarrow> NaN | PosInf \<Rightarrow> PosInf | NegInf \<Rightarrow> PosInf
      | NegZero \<Rightarrow> Val 0 | Val q \<Rightarrow> Val \<bar>q\<bar>)"

section \<open>Tokens\<close>

datatype op = Plus | Minus | Times | Divide

datatype token = Num number | Op op

section \<open>Infix to postfix: \<^verbatim>\<open>toRPN\<close>\<close>

text \<open>The table \<^verbatim>\<open>prec\<close>: \<^verbatim>\<open>{ '+': 1, '-': 1, '\<times>': 2, '\<div>': 2 }\<close>.\<close>

fun prec :: "op \<Rightarrow> nat" where
  "prec Plus = 1"
| "prec Minus = 1"
| "prec Times = 2"
| "prec Divide = 2"

text \<open>
  Arrays are lists in index order: \<^verbatim>\<open>push\<close> appends at the end, \<^verbatim>\<open>pop\<close> removes the
  last element. The inner \<^verbatim>\<open>while\<close> loop of \<^verbatim>\<open>toRPN\<close> moves operators from the end of
  \<open>ops\<close> to the end of \<open>output\<close>.
\<close>

function pop_while :: "op \<Rightarrow> token list \<Rightarrow> op list \<Rightarrow> token list \<times> op list" where
  "pop_while t output ops =
     (if ops \<noteq> [] \<and> prec t \<le> prec (last ops)
      then pop_while t (output @ [Op (last ops)]) (butlast ops)
      else (output, ops))"
  by pat_completeness auto
termination
  by (relation "measure (\<lambda>(t, output, ops). length ops)") auto

declare pop_while.simps [simp del]

fun toRPN_loop :: "token list \<Rightarrow> token list \<Rightarrow> op list \<Rightarrow> token list \<times> op list" where
  "toRPN_loop [] output ops = (output, ops)"
| "toRPN_loop (Num v # ts) output ops = toRPN_loop ts (output @ [Num v]) ops"
| "toRPN_loop (Op t # ts) output ops =
     (case pop_while t output ops of
        (output', ops') \<Rightarrow> toRPN_loop ts output' (ops' @ [t]))"

function drain :: "token list \<Rightarrow> op list \<Rightarrow> token list" where
  "drain output ops =
     (if ops \<noteq> [] then drain (output @ [Op (last ops)]) (butlast ops) else output)"
  by pat_completeness auto
termination
  by (relation "measure (\<lambda>(output, ops). length ops)") auto

declare drain.simps [simp del]

definition toRPN :: "token list \<Rightarrow> token list" where
  "toRPN tokens = (case toRPN_loop tokens [] [] of (output, ops) \<Rightarrow> drain output ops)"

subsection \<open>The shunting-yard algorithm as the specification words it\<close>

text \<open>
  The specification's \<^verbatim>\<open>toPostfix\<close>: an output sequence and an operator stack whose top is
  the head of the list. A numeric token is appended to the output. For an operator, every
  stack-top operator of greater or equal precedence is popped to the output, then the
  operator is pushed. At the end the remaining stack is popped to the output.
\<close>

fun is_num :: "token \<Rightarrow> bool" where
  "is_num (Num v) = True"
| "is_num (Op t) = False"

fun shunt :: "token list \<Rightarrow> token list \<Rightarrow> op list \<Rightarrow> token list" where
  "shunt [] out st = out @ map Op st"
| "shunt (Num v # ts) out st = shunt ts (out @ [Num v]) st"
| "shunt (Op t # ts) out st =
     shunt ts (out @ map Op (takeWhile (\<lambda>s. prec t \<le> prec s) st))
       (t # dropWhile (\<lambda>s. prec t \<le> prec s) st)"

definition toPostfix :: "token list \<Rightarrow> token list" where
  "toPostfix ts = shunt ts [] []"

section \<open>Postfix evaluation: \<^verbatim>\<open>evalRPN\<close>\<close>

text \<open>\<^verbatim>\<open>stack.pop()\<close>: the last element and the rest, or \<^verbatim>\<open>undefined\<close> on the empty array.\<close>

definition pop :: "'a list \<Rightarrow> 'a option \<times> 'a list" where
  "pop xs = (if xs = [] then (None, []) else (Some (last xs), butlast xs))"

definition apply_op :: "op \<Rightarrow> number \<Rightarrow> number \<Rightarrow> number" where
  "apply_op t a b =
     (case t of
        Plus \<Rightarrow> num_add a b
      | Minus \<Rightarrow> num_sub a b
      | Times \<Rightarrow> num_mul a b
      | Divide \<Rightarrow> if strict_eq b (Val 0) then NaN else num_div a b)"

text \<open>
  The \<^verbatim>\<open>for\<close> loop of \<^verbatim>\<open>evalRPN\<close>: \<open>Inl v\<close> is the early \<^verbatim>\<open>return v\<close> inside the loop,
  \<open>Inr stack\<close> the stack after the last token.
\<close>

fun evalRPN_loop :: "number list \<Rightarrow> token list \<Rightarrow> number + number list" where
  "evalRPN_loop stack [] = Inr stack"
| "evalRPN_loop stack (Num v # ts) = evalRPN_loop (stack @ [v]) ts"
| "evalRPN_loop stack (Op t # ts) =
     (case pop stack of
        (b, stack1) \<Rightarrow>
          (case pop stack1 of
             (a, stack2) \<Rightarrow>
               (case (a, b) of
                  (Some a', Some b') \<Rightarrow> evalRPN_loop (stack2 @ [apply_op t a' b']) ts
                | _ \<Rightarrow> Inl NaN)))"

definition evalRPN :: "token list \<Rightarrow> number" where
  "evalRPN rpn =
     (case evalRPN_loop [] rpn of
        Inl v \<Rightarrow> v
      | Inr stack \<Rightarrow> if length stack \<noteq> 0 then stack ! 0 else NaN)"

subsection \<open>Postfix evaluation as the specification words it\<close>

text \<open>
  The specification's \<^verbatim>\<open>evalPostfix\<close>, with the top of the value stack at the head of the
  list: a numeric token is pushed; an operator pops the right operand \<open>b\<close>, then the left
  operand \<open>a\<close>, and pushes the result; with fewer than two values the evaluation fails.
\<close>

fun value_stack :: "number list \<Rightarrow> token list \<Rightarrow> number list option" where
  "value_stack vs [] = Some vs"
| "value_stack vs (Num x # ts) = value_stack (x # vs) ts"
| "value_stack (b # a # vs) (Op t # ts) = value_stack (apply_op t a b # vs) ts"
| "value_stack vs (Op t # ts) = None"

section \<open>Number and string conversions of the host language\<close>

subsection \<open>Decimal digits\<close>

definition is_digit :: "char \<Rightarrow> bool" where
  "is_digit c = (c \<in> set ''0123456789'')"

text \<open>The value of a digit character is its position among the ten digits.\<close>

definition digit_val :: "char \<Rightarrow> int" where
  "digit_val c = int (length (takeWhile (\<lambda>d. d \<noteq> c) ''0123456789''))"

definition digits_val :: "string \<Rightarrow> int" where
  "digits_val ds = foldl (\<lambda>acc c. 10 * acc + digit_val c) 0 ds"

definition digit_char :: "int \<Rightarrow> char" where
  "digit_char d = ''0123456789'' ! nat d"

text \<open>\<open>fixed_digits k n\<close>: the last \<open>k\<close> decimal digits of \<open>n\<close>, zero-padded on the left.\<close>

primrec fixed_digits :: "nat \<Rightarrow> int \<Rightarrow> string" where
  "fixed_digits 0 n = []"
| "fixed_digits (Suc k) n = fixed_digits k (n div 10) @ [digit_char (n mod 10)]"

text \<open>The decimal representation of an integer \<open>n \<ge> 0\<close>, without leading zeros.\<close>

definition decimal :: "int \<Rightarrow> string" where
  "decimal n = (if n \<le> 0 then ''0'' else fixed_digits (nat (digits_len 10 n)) n)"

definition round_half_up :: "rat \<Rightarrow> int" where
  "round_half_up x = \<lfloor>x + 1 / 2\<rfloor>"

subsection \<open>\<^verbatim>\<open>parseFloat\<close>\<close>

text \<open>
  \<^verbatim>\<open>parseFloat\<close> skips leading white space and reads the longest prefix that is a decimal
  literal: an optional sign, then \<^verbatim>\<open>Infinity\<close> or digits with an optional fraction and an
  optional exponent. Without such a prefix the result is not-a-number.
\<close>

definition is_ws :: "char \<Rightarrow> bool" where
  "is_ws c = (c \<in> {CHR '' '', CHR 0x09, CHR 0x0A, CHR 0x0B, CHR 0x0C, CHR 0x0D})"

definition parse_sign :: "string \<Rightarrow> bool \<times> string" where
  "parse_sign s =
     (case s of
        [] \<Rightarrow> (False, s)
      | c # r \<Rightarrow> if c = CHR ''-'' then (True, r) else if c = CHR ''+'' then (False, r)
                 else (False, s))"

definition parse_exponent :: "string \<Rightarrow> int" where
  "parse_exponent s =
     (case s of
        [] \<Rightarrow> 0
      | c # r \<Rightarrow>
          if c = CHR ''e'' \<or> c = CHR ''E'' then
            (case parse_sign r of
               (neg, r') \<Rightarrow>
                 let ds = takeWhile is_digit r'
                 in if ds = [] then 0 else if neg then - digits_val ds else digits_val ds)
          else 0)"

definition parseFloat :: "string \<Rightarrow> number" where
  "parseFloat s =
     (case parse_sign (dropWhile is_ws s) of
        (neg, s2) \<Rightarrow>
          if take 8 s2 = ''Infinity'' then signed_inf neg
          else
            let ip = takeWhile is_digit s2;
                r1 = dropWhile is_digit s2;
                fp = (if take 1 r1 = ''.'' then takeWhile is_digit (drop 1 r1) else []);
                r2 = (if take 1 r1 = ''.'' then dropWhile is_digit (drop 1 r1) else r1)
            in if ip = [] \<and> fp = [] then NaN
               else
                 let mv = scale 10 (parse_exponent r2 - int (length fp))
                            (of_int (digits_val (ip @ fp)))
                 in if mv = 0 then signed_zero neg
                    else round64 (if neg then - mv else mv))"

subsection \<open>\<^verbatim>\<open>Number.prototype.toExponential\<close>\<close>

text \<open>
  \<open>exp_digits f x\<close>, for \<open>x > 0\<close>: the integers \<open>(n, e)\<close> with \<open>10 ^ f \<le> n < 10 ^ (f + 1)\<close>
  for which \<open>n * 10 ^ (e - f)\<close> is nearest to \<open>x\<close>, the larger one on a tie.
\<close>

definition exp_digits :: "nat \<Rightarrow> rat \<Rightarrow> int \<times> int" where
  "exp_digits f x =
     (let e = ilog 10 x;
          n = round_half_up (scale 10 (int f - e) x)
      in if n = 10 ^ (f + 1) then (10 ^ f, e + 1) else (n, e))"

definition toExponential :: "nat \<Rightarrow> number \<Rightarrow> string" where
  "toExponential f n =
     (case n of
        NaN \<Rightarrow> ''NaN''
      | PosInf \<Rightarrow> ''Infinity''
      | NegInf \<Rightarrow> ''-Infinity''
      | NegZero \<Rightarrow> CHR ''0'' # (if f = 0 then [] else CHR ''.'' # replicate f CHR ''0'') @ ''e+0''
      | Val q \<Rightarrow>
          if q = 0 then
            CHR ''0'' # (if f = 0 then [] else CHR ''.'' # replicate f CHR ''0'') @ ''e+0''
          else
            (case exp_digits f \<bar>q\<bar> of
               (m, e) \<Rightarrow>
                 let ds = decimal m
                 in (if q < 0 then ''-'' else [])
                    @ take 1 ds @ (if f = 0 then [] else CHR ''.'' # drop 1 ds)
                    @ ''e'' @ (if e < 0 then ''-'' else ''+'') @ decimal \<bar>e\<bar>))"

subsection \<open>\<^verbatim>\<open>String(n)\<close>\<close>

text \<open>
  \<open>shortest k x\<close>, for \<open>x > 0\<close>: the digits \<open>s\<close> and the exponent \<open>n\<close> with
  \<open>10 ^ (k - 1) \<le> s < 10 ^ k\<close> such that \<open>s * 10 ^ (n - k)\<close> rounds to \<open>x\<close>; if there are two, the
  one nearest to \<open>x\<close>, and the even one if both are as near; nothing if there is none with
  \<open>k\<close> digits.
\<close>

definition shortest :: "nat \<Rightarrow> rat \<Rightarrow> (int \<times> int) option" where
  "shortest k x =
     (let e = ilog 10 x;
          y = scale 10 (int k - 1 - e) x;
          lo = \<lfloor>y\<rfloor>;
          hi = lo + 1;
          lo_ok = (round64 (scale 10 (e + 1 - int k) (of_int lo)) = Val x);
          hi_ok = (round64 (scale 10 (e + 1 - int k) (of_int hi)) = Val x);
          up = (if hi = 10 ^ k then (10 ^ (k - 1), e + 2) else (hi, e + 1))
      in if lo_ok \<and> hi_ok then
           (if of_int hi - y < y - of_int lo \<or> (of_int hi - y = y - of_int lo \<and> even hi)
            then Some up else Some (lo, e + 1))
         else if lo_ok then Some (lo, e + 1)
         else if hi_ok then Some up
         else None)"

text \<open>The search for the least number of digits \<open>k\<close>, from \<open>k\<close> up to \<open>k + fuel\<close>.\<close>

primrec shortest_from :: "nat \<Rightarrow> nat \<Rightarrow> rat \<Rightarrow> nat \<times> int \<times> int" where
  "shortest_from 0 k x = (k, \<lfloor>scale 10 (int k - 1 - ilog 10 x) x\<rfloor>, ilog 10 x + 1)"
| "shortest_from (Suc fuel) k x =
     (case shortest k x of
        Some (s, n) \<Rightarrow> (k, s, n)
      | None \<Rightarrow> shortest_from fuel (Suc k) x)"

definition positive_toString :: "rat \<Rightarrow> string" where
  "positive_toString x =
     (case shortest_from 17 1 x of
        (k, s, n) \<Rightarrow>
          let ds = fixed_digits k s
          in if int k \<le> n \<and> n \<le> 21 then ds @ replicate (nat (n - int k)) CHR ''0''
             else if 0 < n \<and> n \<le> 21 then take (nat n) ds @ ''.'' @ drop (nat n) ds
             else if - 6 < n \<and> n \<le> 0 then ''0.'' @ replicate (nat (- n)) CHR ''0'' @ ds
             else take 1 ds @ (if k = 1 then [] else CHR ''.'' # drop 1 ds)
                  @ ''e'' @ (if n - 1 < 0 then ''-'' else ''+'') @ decimal \<bar>n - 1\<bar>)"

definition String :: "number \<Rightarrow> string" where
  "String n =
     (case n of
        NaN \<Rightarrow> ''NaN''
      | PosInf \<Rightarrow> ''Infinity''
      | NegInf \<Rightarrow> ''-Infinity''
      | NegZero \<Rightarrow> ''0''
      | Val q \<Rightarrow>
          if q = 0 then ''0''
          else if q < 0 then ''-'' @ positive_toString (- q)
          else positive_toString q)"

subsection \<open>\<^verbatim>\<open>toLocaleString\<close> in the locale \<^verbatim>\<open>en-US\<close>\<close>

text \<open>
  \<^verbatim>\<open>n.toLocaleString(undefined, { maximumFractionDigits: 10 })\<close> formats in the default
  locale of the host, so the calculator's functions take it as a parameter
  \<open>toLocaleString :: number \<Rightarrow> string\<close>. \<open>en_US\<close> is that function for a host whose locale
  is \<^verbatim>\<open>en-US\<close>: the shortest decimal that reads back as the number (the digits of
  \<^verbatim>\<open>String(n)\<close>), rounded to at most ten fraction digits, half away from zero, trailing zeros
  dropped, the integer digits grouped in threes by commas.
\<close>

fun group3 :: "string \<Rightarrow> string" where
  "group3 ds =
     (if length ds \<le> 3 then ds
      else group3 (take (length ds - 3) ds) @ '','' @ drop (length ds - 3) ds)"

declare group3.simps [simp del]

definition strip_zeros :: "string \<Rightarrow> string" where
  "strip_zeros ds = rev (dropWhile (\<lambda>c. c = CHR ''0'') (rev ds))"

definition en_US :: "number \<Rightarrow> string" where
  "en_US n =
     (case n of
        NaN \<Rightarrow> ''NaN''
      | PosInf \<Rightarrow> [CHR 0xE2, CHR 0x88, CHR 0x9E]
      | NegInf \<Rightarrow> CHR ''-'' # [CHR 0xE2, CHR 0x88, CHR 0x9E]
      | NegZero \<Rightarrow> ''-0''
      | Val q \<Rightarrow>
          if q = 0 then ''0''
          else
            (case shortest_from 17 1 \<bar>q\<bar> of
               (k, s, e) \<Rightarrow>
                 let r = round_half_up (scale 10 (10 + e - int k) (of_int s));
                     frac = strip_zeros (fixed_digits 10 (r mod 10 ^ 10))
                 in (if q < 0 then ''-'' else [])
                    @ group3 (decimal (r div 10 ^ 10))
                    @ (if frac = [] then [] else CHR ''.'' # frac)))"

section \<open>Formatting the result: \<^verbatim>\<open>formatNumber\<close>\<close>

text \<open>The literals \<^verbatim>\<open>1e12\<close> and \<^verbatim>\<open>1e-6\<close> are the binary64 values nearest to them.\<close>

definition lit_1e12 :: number where
  "lit_1e12 = round64 (10 ^ 12)"

definition lit_1e_6 :: number where
  "lit_1e_6 = round64 (1 / 10 ^ 6)"

definition formatNumber :: "(number \<Rightarrow> string) \<Rightarrow> number \<Rightarrow> string" where
  "formatNumber toLocaleString n =
     (if \<not> isFinite n then ''Error''
      else
        let n = (if n = NegZero then Val 0 else n);
            abs = Math_abs n
        in if num_ge abs lit_1e12 \<or> (\<not> strict_eq abs (Val 0) \<and> num_lt abs lit_1e_6)
           then toExponential 6 n
           else toLocaleString n)"

section \<open>The calculator's session\<close>

record state =
  display :: string
  tokens :: "token list"
  justEvaluated :: bool

definition initial :: state where
  "initial = \<lparr>display = ''0'', tokens = [], justEvaluated = False\<rparr>"

fun is_op :: "token \<Rightarrow> bool" where
  "is_op (Op t) = True"
| "is_op (Num v) = False"

definition inputDigit :: "string \<Rightarrow> state \<Rightarrow> state" where
  "inputDigit d s =
     (if justEvaluated s then s\<lparr>display := d, justEvaluated := False\<rparr>
      else if display s = ''0'' then s\<lparr>display := d\<rparr>
      else if display s = ''-0'' then s\<lparr>display := ''-'' @ d\<rparr>
      else s\<lparr>display := display s @ d\<rparr>)"

definition inputDecimal :: "state \<Rightarrow> state" where
  "inputDecimal s =
     (if justEvaluated s then s\<lparr>display := ''0.'', justEvaluated := False\<rparr>
      else if CHR ''.'' \<notin> set (display s) then s\<lparr>display := display s @ ''.''\<rparr>
      else s)"

definition clearAll :: "state \<Rightarrow> state" where
  "clearAll s = \<lparr>display = ''0'', tokens = [], justEvaluated = False\<rparr>"

definition backspace :: "state \<Rightarrow> state" where
  "backspace s =
     (if justEvaluated s then s\<lparr>display := ''0'', justEvaluated := False\<rparr>
      else
        let next = (if 1 < length (display s) then butlast (display s) else ''0'')
        in s\<lparr>display := (if next = ''-'' then ''0'' else next)\<rparr>)"

definition toggleSign :: "state \<Rightarrow> state" where
  "toggleSign s =
     (if take 1 (display s) = ''-'' then s\<lparr>display := drop 1 (display s)\<rparr>
      else if display s = ''0'' then s
      else s\<lparr>display := ''-'' @ display s\<rparr>)"

definition percent :: "state \<Rightarrow> state" where
  "percent s =
     (let v = parseFloat (display s)
      in if isNaN v then s else s\<lparr>display := String (num_div v (Val 100))\<rparr>)"

definition inputOperator :: "op \<Rightarrow> state \<Rightarrow> state" where
  "inputOperator t s =
     (let next = tokens s
      in if next \<noteq> [] \<and> is_op (next ! (length next - 1))
         then s\<lparr>tokens := next[length next - 1 := Op t]\<rparr>
         else
           let v = parseFloat (display s);
               next = (if \<not> isNaN v then next @ [Num v] else next)
           in \<lparr>display = ''0'', tokens = next @ [Op t], justEvaluated = False\<rparr>)"

definition evaluate :: "(number \<Rightarrow> string) \<Rightarrow> state \<Rightarrow> state" where
  "evaluate toLocaleString s =
     (let seq = tokens s;
          v = parseFloat (display s);
          seq = (if \<not> isNaN v then seq @ [Num v] else seq);
          seq = (if seq \<noteq> [] \<and> is_op (seq ! (length seq - 1)) then butlast seq else seq)
      in if seq = [] then s\<lparr>tokens := [], justEvaluated := True\<rparr>
         else \<lparr>display = formatNumber toLocaleString (evalRPN (toRPN seq)),
               tokens = [], justEvaluated = True\<rparr>)"

text \<open>
  The keys and buttons of the calculator. A digit key carries one of the characters
  \<^verbatim>\<open>0\<close> to \<^verbatim>\<open>9\<close>.
\<close>

datatype action =
    Digit char
  | Decimal
  | Operator op
  | Equals
  | Backspace
  | Clear
  | ToggleSign
  | Percent

fun perform :: "(number \<Rightarrow> string) \<Rightarrow> state \<Rightarrow> action \<Rightarrow> state" where
  "perform L s (Digit c) = inputDigit [c] s"
| "perform L s Decimal = inputDecimal s"
| "perform L s (Operator t) = inputOperator t s"
| "perform L s Equals = evaluate L s"
| "perform L s Backspace = backspace s"
| "perform L s Clear = clearAll s"
| "perform L s ToggleSign = toggleSign s"
| "perform L s Percent = percent s"

fun valid_action :: "action \<Rightarrow> bool" where
  "valid_action (Digit c) = is_digit c"
| "valid_action _ = True"

definition run :: "(number \<Rightarrow> string) \<Rightarrow> action list \<Rightarrow> state" where
  "run L acts = foldl (perform L) initial acts"

text \<open>The states the session can be in: those a sequence of key presses leads to.\<close>

inductive reachable :: "(number \<Rightarrow> string) \<Rightarrow> state \<Rightarrow> bool" for L where
  reachable_initial: "reachable L initial"
| reachable_step: "reachable L s \<Longrightarrow> valid_action a \<Longrightarrow> reachable L (perform L s a)"


section \<open>The invariants the specification states\<close>


text \<open>The pending token sequence ends in two numeric tokens, or in two operator tokens.\<close>

definition ends_two_nums :: "token list \<Rightarrow> bool" where
  "ends_two_nums ts =
     (2 \<le> length ts \<and> is_num (ts ! (length ts - 1)) \<and> is_num (ts ! (length ts - 2)))"

definition ends_two_ops :: "token list \<Rightarrow> bool" where
  "ends_two_ops ts =
     (2 \<le> length ts \<and> is_op (ts ! (length ts - 1)) \<and> is_op (ts ! (length ts - 2)))"

text \<open>The pending sequence is empty, a lone operator, or a number and an operator.\<close>

definition pending_shape :: "token list \<Rightarrow> bool" where
  "pending_shape ts = (ts = [] \<or> (\<exists>t. ts = [Op t]) \<or> (\<exists>v t. ts = [Num v, Op t]))"


text \<open>
  Exponential notation with \<open>f\<close> digits after the decimal point: after an optional minus
  sign, one digit, the point, \<open>f\<close> digits, the letter \<^verbatim>\<open>e\<close>, a sign and the digits of the
  exponent.
\<close>

definition is_exponential :: "nat \<Rightarrow> string \<Rightarrow> bool" where
  "is_exponential f s =
     (let body = (if take 1 s = ''-'' then drop 1 s else s)
      in f + 4 < length body \<and> is_digit (body ! 0) \<and> body ! 1 = CHR ''.'' \<and>
         (\<forall>c \<in> set (take f (drop 2 body)). is_digit c) \<and>
         body ! (f + 2) = CHR ''e'' \<and>
         (body ! (f + 3) = CHR ''+'' \<or> body ! (f + 3) = CHR ''-'') \<and>
         (\<forall>c \<in> set (drop (f + 4) body). is_digit c))"

text \<open>
  Fixed notation of the locale \<^verbatim>\<open>en-US\<close> with at most \<open>k\<close> fraction digits: after an optional
  minus sign, digits grouped by commas, then possibly the point and at most \<open>k\<close> digits.
\<close>

definition is_fixed_en_US :: "nat \<Rightarrow> string \<Rightarrow> bool" where
  "is_fixed_en_US k s =
     (let body = (if take 1 s = ''-'' then drop 1 s else s);
          ip = takeWhile (\<lambda>c. c \<noteq> CHR ''.'') body;
          fr = drop 1 (dropWhile (\<lambda>c. c \<noteq> CHR ''.'') body)
      in ip \<noteq> [] \<and> (\<forall>c \<in> set ip. is_digit c \<or> c = CHR '','') \<and>
         length fr \<le> k \<and> (\<forall>c \<in> set fr. is_digit c))"

section \<open>Small integers are binary64 values\<close>

lemma floor_numeral_div [simp]:
  "\<lfloor>numeral a / numeral b :: rat\<rfloor> = numeral a div numeral b"
  using floor_divide_of_int_eq [of "numeral a" "numeral b", where ?'a = rat] by simp

lemma floor_neg_numeral_div [simp]:
  "\<lfloor>- (numeral a / numeral b) :: rat\<rfloor> = - numeral a div numeral b"
  using floor_divide_of_int_eq [of "- numeral a" "numeral b", where ?'a = rat] by simp

lemma floor_one_div_numeral [simp]: "\<lfloor>1 / numeral b :: rat\<rfloor> = 1 div numeral b"
  using floor_divide_of_int_eq [of 1 "numeral b", where ?'a = rat] by simp

lemma digits_len_0 [simp]: "digits_len b 0 = 0"
  by (simp add: digits_len.simps)

lemma digits_len_1 [simp]: "digits_len b 1 = (if 1 < b then 1 else 0)"
  by (subst digits_len.simps) simp

lemma digits_len_numeral [simp]:
  "digits_len (numeral b) (numeral x) =
     (if (1::int) < numeral b then digits_len (numeral b) (numeral x div numeral b) + 1 else 0)"
  by (subst digits_len.simps) simp

lemma digits_len_nonneg: "0 \<le> digits_len b x"
  by (induction b x rule: digits_len.induct) (subst digits_len.simps, simp)

lemma digits_len_pos: "0 < x \<Longrightarrow> 1 < b \<Longrightarrow> 0 < digits_len b x"
  using digits_len_nonneg [of b "x div b"] by (subst digits_len.simps) simp

lemma digits_len_upper: "1 < b \<Longrightarrow> 0 \<le> x \<Longrightarrow> x < b ^ k \<Longrightarrow> digits_len b x \<le> int k"
proof (induction k arbitrary: x)
  case 0
  then have "x = 0" by simp
  then show ?case by simp
next
  case (Suc k)
  show ?case
  proof (cases "0 < x")
    case False
    with Suc.prems have "x = 0" by simp
    then show ?thesis by simp
  next
    case True
    have "b * (x div b) + x mod b = x"
      by (rule mult_div_mod_eq)
    moreover have "0 \<le> x mod b"
      using Suc.prems(1) by simp
    moreover have "x < b * b ^ k"
      using Suc.prems(3) by simp
    ultimately have "b * (x div b) < b * b ^ k"
      by linarith
    then have "x div b < b ^ k"
      using Suc.prems(1) by (simp add: mult_less_cancel_left_pos)
    moreover from Suc.prems have "0 \<le> x div b"
      by (simp add: pos_imp_zdiv_nonneg_iff)
    ultimately have "digits_len b (x div b) \<le> int k"
      using Suc.IH Suc.prems(1) by blast
    with True Suc.prems(1) show ?thesis
      by (subst digits_len.simps) simp
  qed
qed

lemma round_half_even_of_int [simp]: "round_half_even (of_int z) = z"
  by (simp add: round_half_even_def)

lemma round64_of_int:
  assumes "n \<noteq> 0" and "\<bar>n\<bar> < 2 ^ 53"
  shows "round64 (of_int n) = Val (of_int n)"
proof -
  define a where "a = \<bar>n\<bar>"
  define e where "e = digits_len 2 a - 1"
  define k where "k = nat (52 - e)"
  from assms have a: "0 < a" "a < 2 ^ 53"
    by (simp_all add: a_def)
  have "digits_len 2 a \<le> int 53"
    using a by (intro digits_len_upper) simp_all
  moreover have "0 < digits_len 2 a"
    using a by (simp add: digits_len_pos)
  ultimately have e: "0 \<le> e" "e \<le> 52"
    by (simp_all add: e_def)
  have abs: "\<bar>of_int n :: rat\<bar> = of_int a"
    by (simp add: a_def)
  have il: "ilog 2 (of_int a) = e"
    using a by (simp add: ilog_def e_def)
  have p: "max (e - 52) (- 1074) = - int k"
    using e by (simp add: k_def)
  have sc: "scale 2 (int k) (of_int a) = of_int (a * 2 ^ k)"
    by (simp add: scale_def)
  have unscale: "scale 2 (- int k) (of_int (a * 2 ^ k)) = of_int a"
    by (cases "k = 0") (simp_all add: scale_def)
  have small: "\<not> (2 ^ 1024 \<le> (of_int a :: rat))"
  proof -
    have "(of_int a :: rat) < of_int (2 ^ 53)"
      using a by (simp only: of_int_less_iff)
    also have "\<dots> \<le> 2 ^ 1024" by simp
    finally show ?thesis by simp
  qed
  have nz: "a * 2 ^ k \<noteq> 0"
    using a by simp
  have sgn: "(if of_int n < (0::rat) then - of_int a else of_int a) = (of_int n :: rat)"
    by (simp add: a_def)
  from assms(1) show ?thesis
    unfolding round64_def abs Let_def il p
    by (simp only: minus_minus sc unscale round_half_even_of_int small nz sgn of_int_eq_0_iff if_False)
qed

lemma round64_numeral [simp]:
  "\<bar>numeral w :: int\<bar> < 2 ^ 53 \<Longrightarrow> round64 (numeral w) = Val (numeral w)"
  using round64_of_int [of "numeral w"] by simp

lemma round64_1 [simp]: "round64 1 = Val 1"
  using round64_of_int [of 1] by simp


section \<open>\<^verbatim>\<open>toRPN\<close> is the shunting-yard algorithm\<close>

lemma pop_while_eq:
  "pop_while t out ops =
     (out @ map Op (takeWhile (\<lambda>s. prec t \<le> prec s) (rev ops)),
      rev (dropWhile (\<lambda>s. prec t \<le> prec s) (rev ops)))"
proof (induction t out ops rule: pop_while.induct)
  case (1 t out ops)
  show ?case
  proof (cases "ops = []")
    case True
    then show ?thesis by (simp add: pop_while.simps)
  next
    case False
    then obtain ys y where ops: "ops = ys @ [y]"
      by (metis rev_exhaust)
    show ?thesis
    proof (cases "prec t \<le> prec y")
      case True
      with 1 ops show ?thesis
        by (subst pop_while.simps) simp
    next
      case False
      with ops show ?thesis
        by (subst pop_while.simps) simp
    qed
  qed
qed

lemma drain_eq: "drain out ops = out @ map Op (rev ops)"
proof (induction out ops rule: drain.induct)
  case (1 out ops)
  show ?case
  proof (cases "ops = []")
    case True
    then show ?thesis by (simp add: drain.simps)
  next
    case False
    then obtain ys y where ops: "ops = ys @ [y]"
      by (metis rev_exhaust)
    with 1 show ?thesis
      by (subst drain.simps) simp
  qed
qed

lemma toRPN_loop_shunt:
  "(case toRPN_loop ts out ops of (out', ops') \<Rightarrow> drain out' ops') =
     shunt ts out (rev ops)"
proof (induction ts out ops rule: toRPN_loop.induct)
  case (1 out ops)
  show ?case by (simp add: drain_eq)
next
  case (2 v ts out ops)
  then show ?case by simp
next
  case (3 t ts out ops)
  then show ?case by (simp add: pop_while_eq)
qed

lemma shunt_nums:
  "filter is_num (shunt ts out st) = filter is_num out @ filter is_num ts"
proof (induction ts out st rule: shunt.induct)
  case (1 out st)
  show ?case by (simp add: filter_map comp_def)
next
  case (2 v ts out st)
  then show ?case by simp
next
  case (3 t ts out st)
  then show ?case by (simp add: filter_map comp_def)
qed

lemma toRPN_shunt: "toRPN ts = shunt ts [] []"
  using toRPN_loop_shunt [of ts "[]" "[]"] by (simp add: toRPN_def)

text \<open>
  C4. For every token sequence, \<^verbatim>\<open>toRPN\<close> computes what the specification's shunting-yard
  algorithm computes: numeric tokens go to the output in order, an incoming operator first
  pops every stack-top operator of greater or equal precedence (add 1, subtract 1,
  multiply 2, divide 2) to the output and is then pushed, and at the end the remaining
  operators are popped to the output. In particular the numeric tokens of the output are
  those of the input, in the same order; \<open>a + b \<times> c\<close> becomes \<open>a b c \<times> +\<close>, and
  \<open>a \<div> b \<div> c\<close> becomes \<open>a b \<div> c \<div>\<close>.
\<close>

theorem toRPN_shunting_yard:
  "toRPN ts = toPostfix ts \<and>
   filter is_num (toRPN ts) = filter is_num ts \<and>
   prec Plus = 1 \<and> prec Minus = 1 \<and> prec Times = 2 \<and> prec Divide = 2 \<and>
   toRPN [Num a, Op Plus, Num b, Op Times, Num c] =
     [Num a, Num b, Num c, Op Times, Op Plus] \<and>
   toRPN [Num a, Op Divide, Num b, Op Divide, Num c] =
     [Num a, Num b, Op Divide, Num c, Op Divide]"
  by (simp add: toRPN_shunt toPostfix_def shunt_nums)

section \<open>Evaluating the conversions on concrete inputs\<close>

lemma decimal_numeral [simp]:
  "decimal (numeral w) = fixed_digits (nat (digits_len 10 (numeral w))) (numeral w)"
  by (simp add: decimal_def)

lemma decimal_0 [simp]: "decimal 0 = ''0''"
  by (simp add: decimal_def)

lemma decimal_1 [simp]: "decimal 1 = ''1''"
  by (simp add: decimal_def digit_char_def)

lemma fixed_digits_numeral [simp]:
  "fixed_digits (numeral k) n = fixed_digits (pred_numeral k) (n div 10) @ [digit_char (n mod 10)]"
  by (simp add: numeral_eq_Suc)

lemma group3_short: "length ds \<le> 3 \<Longrightarrow> group3 ds = ds"
  by (simp add: group3.simps)

lemma round64_eval:
  assumes "q \<noteq> 0" "ilog 2 \<bar>q\<bar> = e" "max (e - 52) (- 1074) = p"
    "round_half_even (scale 2 (- p) \<bar>q\<bar>) = m" "scale 2 p (of_int m) = v"
    "\<not> 2 ^ 1024 \<le> v" "m \<noteq> 0"
  shows "round64 q = Val (if q < 0 then - v else v)"
  using assms(1,6,7) unfolding round64_def Let_def assms(2) assms(3) assms(4) assms(5)
  by simp

lemma lit_1e12_eq: "lit_1e12 = Val (10 ^ 12)"
  by (simp add: lit_1e12_def)

lemma lit_1e_6_eq: "lit_1e_6 = Val (4722366482869645 / 2 ^ 72)"
proof -
  have "round64 (1 / 10 ^ 6) =
      Val (if (1 / 10 ^ 6 :: rat) < 0 then - (4722366482869645 / 2 ^ 72)
           else 4722366482869645 / 2 ^ 72)"
  proof (rule round64_eval [where e = "- 20" and p = "- 72" and m = 4722366482869645])
    show "ilog 2 \<bar>1 / 10 ^ 6\<bar> = - 20"
      by (simp add: ilog_def scale_def Let_def)
    show "round_half_even (scale 2 (- (- 72)) \<bar>1 / 10 ^ 6\<bar>) = 4722366482869645"
      by (simp add: scale_def round_half_even_def Let_def)
    show "scale 2 (- 72) (rat_of_int 4722366482869645) = 4722366482869645 / 2 ^ 72"
      by (simp add: scale_def)
  qed simp_all
  then show ?thesis
    by (simp add: lit_1e_6_def)
qed

lemma formatNumber_Val:
  "formatNumber L (Val q) =
     (if 10 ^ 12 \<le> \<bar>q\<bar> \<or> (q \<noteq> 0 \<and> \<bar>q\<bar> < 4722366482869645 / 2 ^ 72)
      then toExponential 6 (Val q) else L (Val q))"
  by (simp add: formatNumber_def isFinite_def Math_abs_def num_ge_def num_lt_def strict_eq_def
      is_zero_def lit_1e12_eq lit_1e_6_eq Let_def)

lemma formatNumber_not_finite: "\<not> isFinite n \<Longrightarrow> formatNumber L n = ''Error''"
  by (simp add: formatNumber_def)

lemma formatNumber_NegZero: "formatNumber L NegZero = L (Val 0)"
  by (simp add: formatNumber_def isFinite_def Math_abs_def num_ge_def num_lt_def strict_eq_def
      is_zero_def lit_1e12_eq lit_1e_6_eq Let_def)

lemma shortest_eval:
  assumes "ilog 10 x = e" and "scale 10 (int k - 1 - e) x = y" and "\<lfloor>y\<rfloor> = lo"
    and "round64 (scale 10 (e + 1 - int k) (of_int lo)) = a"
    and "round64 (scale 10 (e + 1 - int k) (of_int (lo + 1))) = b"
  shows "shortest k x =
    (if a = Val x \<and> b = Val x then
       (if of_int (lo + 1) - y < y - of_int lo \<or>
           (of_int (lo + 1) - y = y - of_int lo \<and> even (lo + 1))
        then Some (if lo + 1 = 10 ^ k then (10 ^ (k - 1), e + 2) else (lo + 1, e + 1))
        else Some (lo, e + 1))
     else if a = Val x then Some (lo, e + 1)
     else if b = Val x
       then Some (if lo + 1 = 10 ^ k then (10 ^ (k - 1), e + 2) else (lo + 1, e + 1))
     else None)"
  unfolding shortest_def Let_def assms ..

lemma shortest_from_found:
  "shortest k x = Some (s, n) \<Longrightarrow> shortest_from (Suc fuel) k x = (k, s, n)"
  by simp

lemma shortest_from_next:
  "shortest k x = None \<Longrightarrow> shortest_from (Suc fuel) k x = shortest_from fuel (Suc k) x"
  by simp


lemma shortest_from_2:
  assumes "shortest 1 x = None" and "shortest 2 x = Some (s, n)"
  shows "shortest_from 17 1 x = (2, s, n)"
proof -
  have "shortest_from 17 1 x = shortest_from (Suc 16) 1 x"
    by simp
  also have "\<dots> = shortest_from 16 (Suc 1) x"
    using assms(1) by (rule shortest_from_next)
  also have "\<dots> = shortest_from (Suc 15) 2 x"
    by (simp add: numeral_2_eq_2)
  also have "\<dots> = (2, s, n)"
    using assms(2) by (rule shortest_from_found)
  finally show ?thesis .
qed

lemma en_US_eval:
  assumes "q \<noteq> 0" and "shortest_from 17 1 \<bar>q\<bar> = (k, s, e)"
    and "round_half_up (scale 10 (10 + e - int k) (of_int s)) = r"
    and "strip_zeros (fixed_digits 10 (r mod 10 ^ 10)) = fr"
    and "group3 (decimal (r div 10 ^ 10)) = ip"
  shows "en_US (Val q) =
    (if q < 0 then ''-'' else []) @ ip @ (if fr = [] then [] else CHR ''.'' # fr)"
  using assms(1) unfolding en_US_def Let_def number.case assms(2) prod.case assms(3-5)
  by simp

lemma shortest_15: "shortest_from 17 1 15 = (2, 15, 2)"
proof -
  have e: "ilog 10 15 = 1"
    by (simp add: ilog_def)
  have "shortest 1 15 = None"
    by (subst shortest_eval [where e = 1 and y = "3 / 2" and lo = 1 and a = "Val 10"
          and b = "Val 20"])
      (simp_all add: e scale_def)
  moreover have "shortest 2 15 = Some (15, 2)"
    by (subst shortest_eval [where e = 1 and y = 15 and lo = 15 and a = "Val 15"
          and b = "Val 16"])
      (simp_all add: e scale_def)
  ultimately show ?thesis
    by (rule shortest_from_2)
qed

lemma en_US_15: "en_US (Val 15) = ''15''"
proof -
  have "en_US (Val 15) =
    (if (15::rat) < 0 then ''-'' else []) @ ''15'' @ (if ([]::string) = [] then [] else CHR ''.'' # [])"
  proof (rule en_US_eval [where k = 2 and s = 15 and e = 2 and r = 150000000000])
    show "shortest_from 17 1 \<bar>15\<bar> = (2, 15, 2)"
      by (simp only: abs_numeral shortest_15)
    show "round_half_up (scale 10 (10 + 2 - int 2) (rat_of_int 15)) = 150000000000"
      by (simp add: round_half_up_def scale_def)
    show "strip_zeros (fixed_digits 10 (150000000000 mod 10 ^ 10)) = []"
      by (simp add: strip_zeros_def digit_char_def)
    show "group3 (decimal (150000000000 div 10 ^ 10)) = ''15''"
      by (simp add: digit_char_def group3_short)
  qed simp
  then show ?thesis by simp
qed

lemma toExponential_1e12: "toExponential 6 (Val (10 ^ 12)) = ''1.000000e+12''"
  by (simp add: toExponential_def exp_digits_def ilog_def scale_def round_half_up_def
      digit_char_def Let_def)

lemmas parseFloat_eval =
  parseFloat_def parse_sign_def is_ws_def is_digit_def digits_val_def digit_val_def
  parse_exponent_def scale_def Let_def signed_zero_def

lemma parseFloat_0: "parseFloat ''0'' = Val 0"
  by (simp add: parseFloat_eval)

lemma parseFloat_3: "parseFloat ''3'' = Val 3"
  by (simp add: parseFloat_eval)

lemma parseFloat_5: "parseFloat ''5'' = Val 5"
  by (simp add: parseFloat_eval)

lemma parseFloat_Error: "parseFloat ''Error'' = NaN"
  by (simp add: parseFloat_eval)

lemma num_mul_5_3: "num_mul (Val 5) (Val 3) = Val 15"
  by (simp add: num_mul_def is_inf_def is_zero_def)

lemma evalRPN_binary:
  "evalRPN (toRPN [Num a, Op t, Num b]) = apply_op t a b"
  by (simp add: toRPN_shunt evalRPN_def pop_def)

lemma evalRPN_single: "evalRPN (toRPN [Num a]) = a"
  by (simp add: toRPN_shunt evalRPN_def)

lemma round64_3_2: "round64 (3 / 2) = Val (3 / 2)"
proof -
  have "round64 (3 / 2) = Val (if (3 / 2 :: rat) < 0 then - (3 / 2) else 3 / 2)"
  proof (rule round64_eval [where e = 0 and p = "- 52" and m = 6755399441055744])
    show "ilog 2 \<bar>3 / 2\<bar> = 0"
      by (simp add: ilog_def)
    show "round_half_even (scale 2 (- (- 52)) \<bar>3 / 2\<bar>) = 6755399441055744"
      by (simp add: scale_def round_half_even_def Let_def)
    show "scale 2 (- 52) (rat_of_int 6755399441055744) = 3 / 2"
      by (simp add: scale_def)
  qed simp_all
  then show ?thesis by simp
qed

lemma parseFloat_1_5: "parseFloat ''1.5'' = Val (3 / 2)"
  by (simp add: parseFloat_eval round64_3_2)

lemma round64_8_5: "round64 (8 / 5) = Val (7205759403792794 / 2 ^ 52)"
proof -
  have "round64 (8 / 5) =
      Val (if (8 / 5 :: rat) < 0 then - (7205759403792794 / 2 ^ 52)
           else 7205759403792794 / 2 ^ 52)"
  proof (rule round64_eval [where e = 0 and p = "- 52" and m = 7205759403792794])
    show "ilog 2 \<bar>8 / 5\<bar> = 0"
      by (simp add: ilog_def)
    show "round_half_even (scale 2 (- (- 52)) \<bar>8 / 5\<bar>) = 7205759403792794"
      by (simp add: scale_def round_half_even_def Let_def)
    show "scale 2 (- 52) (rat_of_int 7205759403792794) = 7205759403792794 / 2 ^ 52"
      by (simp add: scale_def)
  qed simp_all
  then show ?thesis by simp
qed

lemma shortest_1_5: "shortest_from 17 1 (3 / 2) = (2, 15, 1)"
proof -
  have e: "ilog 10 (3 / 2) = 0"
    by (simp add: ilog_def)
  have "shortest 1 (3 / 2) = None"
    by (subst shortest_eval [where e = 0 and y = "3 / 2" and lo = 1 and a = "Val 1"
          and b = "Val 2"])
      (simp_all add: e scale_def)
  moreover have "shortest 2 (3 / 2) = Some (15, 1)"
    by (subst shortest_eval [where e = 0 and y = 15 and lo = 15 and a = "Val (3 / 2)"
          and b = "Val (7205759403792794 / 2 ^ 52)"])
      (simp_all add: e scale_def round64_3_2 round64_8_5)
  ultimately show ?thesis
    by (rule shortest_from_2)
qed

lemma en_US_1_5: "en_US (Val (3 / 2)) = ''1.5''"
proof -
  have "en_US (Val (3 / 2)) =
    (if (3 / 2 :: rat) < 0 then ''-'' else []) @ ''1'' @ (if ''5'' = [] then [] else CHR ''.'' # ''5'')"
  proof (rule en_US_eval [where k = 2 and s = 15 and e = 1 and r = 15000000000])
    have "\<bar>3 / 2 :: rat\<bar> = 3 / 2"
      by simp
    then show "shortest_from 17 1 \<bar>3 / 2\<bar> = (2, 15, 1)"
      by (simp only: shortest_1_5)
    show "round_half_up (scale 10 (10 + 1 - int 2) (rat_of_int 15)) = 15000000000"
      by (simp add: round_half_up_def scale_def)
    show "strip_zeros (fixed_digits 10 (15000000000 mod 10 ^ 10)) = ''5''"
      by (simp add: strip_zeros_def digit_char_def)
    show "group3 (decimal (15000000000 div 10 ^ 10)) = ''1''"
      by (simp add: digit_char_def group3_short)
  qed simp
  then show ?thesis by simp
qed








section \<open>The result of \<^verbatim>\<open>evalRPN\<close>\<close>

lemma evalRPN_loop_early: "evalRPN_loop stack rpn = Inl v \<Longrightarrow> v = NaN"
proof (induction stack rpn rule: evalRPN_loop.induct)
  case (1 stack)
  then show ?case by simp
next
  case (2 stack v ts)
  then show ?case by simp
next
  case (3 stack t ts)
  then show ?case
    by (auto simp: pop_def split: if_splits option.splits prod.splits)
qed

lemma evalRPN_loop_short: "length st < 2 \<Longrightarrow> evalRPN_loop st (Op t # ts) = Inl NaN"
proof (cases st)
  case Nil
  then show ?thesis by (simp add: pop_def)
next
  case (Cons b r)
  assume "length st < 2"
  with Cons have "st = [b]" by simp
  then show ?thesis by (simp add: pop_def)
qed

lemma evalRPN_loop_two:
  "evalRPN_loop (st @ [a, b]) (Op t # ts) = evalRPN_loop (st @ [apply_op t a b]) ts"
  by (simp add: pop_def butlast_append)

lemma evalRPN_loop_value_stack:
  "evalRPN_loop st rpn =
     (case value_stack (rev st) rpn of None \<Rightarrow> Inl NaN | Some vs \<Rightarrow> Inr (rev vs))"
proof (induction rpn arbitrary: st)
  case Nil
  show ?case by simp
next
  case (Cons tok rpn)
  show ?case
  proof (cases tok)
    case (Num x)
    then show ?thesis
      using Cons [of "st @ [x]"] by simp
  next
    case (Op t)
    show ?thesis
    proof (cases "length st < 2")
      case True
      then have "rev st = [] \<or> (\<exists>b. rev st = [b])"
        by (cases st rule: rev_cases) (auto simp: Suc_length_conv)
      then have "value_stack (rev st) (Op t # rpn) = None"
        by auto
      with True Op show ?thesis
        by (simp del: evalRPN_loop.simps add: evalRPN_loop_short)
    next
      case False
      then obtain r a b where st: "st = r @ [a, b]"
      proof (cases st rule: rev_cases)
        case Nil
        with False show ?thesis by simp
      next
        case (snoc r1 b)
        with False obtain r a where "r1 = r @ [a]"
          by (cases r1 rule: rev_cases) auto
        with snoc that show ?thesis by simp
      qed
      show ?thesis
        using Cons [of "r @ [apply_op t a b]"] unfolding Op st evalRPN_loop_two
        by (simp del: evalRPN_loop.simps)
    qed
  qed
qed

lemma evalRPN_value_stack:
  "evalRPN rpn =
     (case value_stack [] rpn of None \<Rightarrow> NaN
      | Some vs \<Rightarrow> if vs = [] then NaN else last vs)"
proof (cases "value_stack [] rpn")
  case None
  then show ?thesis
    using evalRPN_loop_value_stack [of "[]" rpn] by (simp add: evalRPN_def)
next
  case (Some vs)
  then have "evalRPN_loop [] rpn = Inr (rev vs)"
    using evalRPN_loop_value_stack [of "[]" rpn] by simp
  moreover have "rev vs ! 0 = last vs" if "vs \<noteq> []"
    using that by (simp add: rev_nth last_conv_nth)
  ultimately show ?thesis
    using Some by (simp add: evalRPN_def)
qed


text \<open>
  C1, as the specification states it, fails: with two values left on the stack the result
  is the bottom one, not not-a-number.
\<close>

theorem evalRPN_two_left_counterexample:
  "evalRPN_loop [] [Num (Val 1), Num (Val 2)] = Inr [Val 1, Val 2] \<and>
   length [Val 1, Val 2] \<noteq> 1 \<and>
   evalRPN [Num (Val 1), Num (Val 2)] = Val 1 \<and>
   evalRPN [Num (Val 1), Num (Val 2)] \<noteq> NaN"
  by (simp add: evalRPN_def)

text \<open>
  C1, amended. \<^verbatim>\<open>evalRPN\<close> maintains the value stack the specification describes
  (\<open>value_stack\<close>, the top of the stack at the head of the list). When an operator is met
  with fewer than two values on the stack, the evaluation stops there and the result is
  not-a-number. Otherwise, after the last token, the result is the bottom value of the
  stack (\<^verbatim>\<open>stack[0]\<close>) whenever at least one value remains: the single remaining value when
  exactly one remains, the first pushed one when more remain; and it is not-a-number when
  no value remains. (The value returned can itself be not-a-number, as after a division by
  zero.)
\<close>

theorem evalRPN_returns_bottom:
  "evalRPN rpn =
     (case value_stack [] rpn of None \<Rightarrow> NaN
      | Some vs \<Rightarrow> if vs = [] then NaN else last vs) \<and>
   (length st < 2 \<longrightarrow> evalRPN_loop st (Op t # ts) = Inl NaN) \<and>
   evalRPN_loop (st @ [a, b]) (Op t # ts) = evalRPN_loop (st @ [apply_op t a b]) ts \<and>
   (evalRPN_loop [] rpn = Inr stack \<longrightarrow>
      value_stack [] rpn = Some (rev stack) \<and>
      (length stack = 1 \<longrightarrow> stack = [evalRPN rpn]) \<and>
      (stack \<noteq> [] \<longrightarrow> evalRPN rpn = stack ! 0) \<and>
      (stack = [] \<longrightarrow> evalRPN rpn = NaN)) \<and>
   (evalRPN_loop [] rpn = Inl v \<longrightarrow>
      v = NaN \<and> evalRPN rpn = NaN \<and> value_stack [] rpn = None)"
proof -
  have vs: "value_stack [] rpn = Some (rev stack)" if "evalRPN_loop [] rpn = Inr stack"
    using that evalRPN_loop_value_stack [of "[]" rpn]
    by (cases "value_stack [] rpn") auto
  have one: "stack = [evalRPN rpn]" if "evalRPN_loop [] rpn = Inr stack" "length stack = 1"
  proof -
    from that(2) obtain x where "stack = [x]"
      by (cases stack) simp_all
    with that(1) show ?thesis by (simp add: evalRPN_def)
  qed
  have bottom: "evalRPN rpn = stack ! 0" if "evalRPN_loop [] rpn = Inr stack" "stack \<noteq> []"
    using that by (simp add: evalRPN_def)
  have none: "evalRPN rpn = NaN" if "evalRPN_loop [] rpn = Inr stack" "stack = []"
    using that by (simp add: evalRPN_def)
  have early: "v = NaN \<and> evalRPN rpn = NaN \<and> value_stack [] rpn = None"
    if "evalRPN_loop [] rpn = Inl v"
  proof -
    have "v = NaN"
      using that by (rule evalRPN_loop_early)
    moreover have "evalRPN rpn = NaN"
      using that \<open>v = NaN\<close> by (simp add: evalRPN_def)
    moreover have "value_stack [] rpn = None"
      using that evalRPN_loop_value_stack [of "[]" rpn]
      by (cases "value_stack [] rpn") simp_all
    ultimately show ?thesis by simp
  qed
  show ?thesis
    using evalRPN_value_stack [of rpn] evalRPN_loop_short [of st t ts]
      evalRPN_loop_two [of st a b t ts] vs one bottom none early
    by blast
qed

theorem evalRPN_returns_bottom_witness:
  "evalRPN_loop [] [Num (Val 5), Num (Val 3), Op Times] = Inr [Val 15] \<and>
   length [Val 15] = 1 \<and>
   evalRPN [Num (Val 5), Num (Val 3), Op Times] = Val 15 \<and>
   evalRPN_loop [] [Num (Val 5), Num (Val 0), Op Divide] = Inr [NaN] \<and>
   evalRPN [Num (Val 5), Num (Val 0), Op Divide] = NaN \<and>
   evalRPN_loop [] [Num (Val 7), Num (Val 8), Num (Val 9)] = Inr [Val 7, Val 8, Val 9] \<and>
   evalRPN [Num (Val 7), Num (Val 8), Num (Val 9)] = Val 7 \<and>
   length [Val 3] < 2 \<and>
   evalRPN_loop [Val 3] [Op Plus] = Inl NaN \<and>
   evalRPN_loop [] [Num (Val 3), Op Plus] = Inl NaN \<and>
   evalRPN [Num (Val 3), Op Plus] = NaN \<and>
   value_stack [] [Num (Val 3), Op Plus] = None \<and>
   evalRPN_loop [] [] = Inr [] \<and>
   evalRPN [] = NaN"
proof -
  have m: "apply_op Times (Val 5) (Val 3) = Val 15"
    by (simp add: apply_op_def num_mul_5_3)
  have d: "apply_op Divide (Val 5) (Val 0) = NaN"
    by (simp add: apply_op_def strict_eq_def is_zero_def)
  have l1: "evalRPN_loop [] [Num (Val 5), Num (Val 3), Op Times] = Inr [Val 15]"
    by (simp add: pop_def m)
  have l2: "evalRPN_loop [] [Num (Val 5), Num (Val 0), Op Divide] = Inr [NaN]"
    by (simp add: pop_def d)
  have l3: "evalRPN_loop [] [Num (Val 7), Num (Val 8), Num (Val 9)] = Inr [Val 7, Val 8, Val 9]"
    by simp
  have l4: "evalRPN_loop [] [Num (Val 3), Op Plus] = Inl NaN"
    by (simp add: pop_def)
  have l5: "evalRPN_loop [] [] = Inr []"
    by simp
  have w1: "evalRPN [Num (Val 5), Num (Val 3), Op Times] = [Val 15] ! 0"
    using l1 evalRPN_returns_bottom [of "[Num (Val 5), Num (Val 3), Op Times]" "[]" Plus "[]"
      "Val 0" "Val 0" "[Val 15]" NaN]
    by blast
  have w2: "evalRPN [Num (Val 5), Num (Val 0), Op Divide] = [NaN] ! 0"
    using l2 evalRPN_returns_bottom [of "[Num (Val 5), Num (Val 0), Op Divide]" "[]" Plus "[]"
      "Val 0" "Val 0" "[NaN]" NaN]
    by blast
  have w3: "evalRPN [Num (Val 7), Num (Val 8), Num (Val 9)] = [Val 7, Val 8, Val 9] ! 0"
    using l3 evalRPN_returns_bottom [of "[Num (Val 7), Num (Val 8), Num (Val 9)]" "[]" Plus "[]"
      "Val 0" "Val 0" "[Val 7, Val 8, Val 9]" NaN]
    by blast
  have "length [Val 3] < 2"
    by simp
  then have w4: "evalRPN_loop [Val 3] [Op Plus] = Inl NaN \<and>
      evalRPN [Num (Val 3), Op Plus] = NaN \<and> value_stack [] [Num (Val 3), Op Plus] = None"
    using l4 evalRPN_returns_bottom [of "[Num (Val 3), Op Plus]" "[Val 3]" Plus "[]"
      "Val 0" "Val 0" "[]" NaN]
    by blast
  have w5: "evalRPN [] = NaN"
    using l5 evalRPN_returns_bottom [of "[]" "[]" Plus "[]" "Val 0" "Val 0" "[]" NaN]
    by blast
  from l1 l2 l3 l4 l5 w1 w2 w3 w4 w5 show ?thesis
    by simp
qed

text \<open>
  C10. Division by negative zero: \<^verbatim>\<open>b === 0\<close> holds for \<open>-0\<close> as it does for \<open>+0\<close>, so for
  every left operand the quotient is not-a-number, the same as for division by \<open>+0\<close>, and
  not an infinity.
\<close>

theorem evalRPN_divide_by_negative_zero:
  "strict_eq NegZero (Val 0) \<and>
   evalRPN [Num a, Num NegZero, Op Divide] = NaN \<and>
   evalRPN (toRPN [Num a, Op Divide, Num NegZero]) = NaN \<and>
   evalRPN [Num a, Num NegZero, Op Divide] = evalRPN [Num a, Num (Val 0), Op Divide] \<and>
   evalRPN [Num a, Num NegZero, Op Divide] \<noteq> PosInf \<and>
   evalRPN [Num a, Num NegZero, Op Divide] \<noteq> NegInf"
  by (simp add: evalRPN_def pop_def apply_op_def strict_eq_def is_zero_def toRPN_shunt)

section \<open>The integer logarithm and the digits of a number\<close>

lemma is_digit_not_sign: "is_digit c \<Longrightarrow> c \<noteq> CHR ''.'' \<and> c \<noteq> CHR ''-''"
  by (auto simp: is_digit_def)

lemma digits_len_step:
  "0 < x \<Longrightarrow> 1 < b \<Longrightarrow> digits_len b x = digits_len b (x div b) + 1"
  by (subst digits_len.simps) simp

lemma digits_len_bounds:
  assumes "1 < b" and "0 < x"
  shows "b ^ nat (digits_len b x - 1) \<le> x \<and> x < b ^ nat (digits_len b x)"
  using assms
proof (induction b x rule: digits_len.induct)
  case (1 b x)
  have split: "b * (x div b) + x mod b = x"
    by (rule mult_div_mod_eq)
  have m: "0 \<le> x mod b" "x mod b < b"
    using "1.prems"(1) by simp_all
  show ?case
  proof (cases "x div b = 0")
    case True
    with split m "1.prems" show ?thesis
      by (simp add: digits_len_step)
  next
    case False
    have "0 \<le> x div b"
      using "1.prems" by (simp add: pos_imp_zdiv_nonneg_iff)
    with False have pos: "0 < x div b" by simp
    from "1.IH" "1.prems" pos
    have ih: "b ^ nat (digits_len b (x div b) - 1) \<le> x div b"
      "x div b < b ^ nat (digits_len b (x div b))"
      by simp_all
    have dpos: "0 < digits_len b (x div b)"
      using pos "1.prems"(1) by (rule digits_len_pos)
    have e1: "nat (digits_len b x - 1) = Suc (nat (digits_len b (x div b) - 1))"
      using dpos "1.prems" by (simp add: digits_len_step)
    have e2: "nat (digits_len b x) = Suc (nat (digits_len b (x div b)))"
      using dpos "1.prems" by (simp add: digits_len_step)
    have "b * b ^ nat (digits_len b (x div b) - 1) \<le> b * (x div b)"
      using ih(1) "1.prems"(1) by simp
    with split m(1) have lo: "b * b ^ nat (digits_len b (x div b) - 1) \<le> x"
      by linarith
    have "x div b + 1 \<le> b ^ nat (digits_len b (x div b))"
      using ih(2) by simp
    then have "b * (x div b + 1) \<le> b * b ^ nat (digits_len b (x div b))"
      using "1.prems"(1) by simp
    moreover have "b * (x div b + 1) = b * (x div b) + b"
      by (simp add: algebra_simps)
    then have "x < b * (x div b + 1)"
      using split m(2) by linarith
    ultimately have hi: "x < b * b ^ nat (digits_len b (x div b))"
      by linarith
    from lo hi show ?thesis
      by (simp only: e1 e2 power_Suc)
  qed
qed

lemma digits_len_eq:
  assumes "1 < b" and "b ^ k \<le> x" and "x < b ^ Suc k"
  shows "digits_len b x = int (Suc k)"
proof -
  have "0 < b ^ k" using assms(1) by simp
  with assms(2) have pos: "0 < x" by linarith
  have up: "digits_len b x \<le> int (Suc k)"
    using assms(1) pos assms(3) by (intro digits_len_upper) simp_all
  from digits_len_bounds [OF assms(1) pos]
  have "x < b ^ nat (digits_len b x)" by simp
  with assms(2) have "b ^ k < b ^ nat (digits_len b x)" by linarith
  then have "k < nat (digits_len b x)"
    using assms(1) by (simp add: power_strict_increasing_iff)
  with up show ?thesis by linarith
qed

lemma mult_eq_1_iff: "0 < (x::rat) \<Longrightarrow> q * x = 1 \<longleftrightarrow> q = 1 / x"
  by (simp add: eq_divide_eq)

lemma scale_powi: "scale b k x = x * of_int b powi k"
proof (cases "0 \<le> k")
  case True
  then show ?thesis by (simp add: scale_def power_int_def)
next
  case False
  then show ?thesis
    by (simp add: scale_def power_int_def power_inverse divide_inverse)
qed

lemma ilog_bounds:
  assumes b: "1 < b" and q: "0 < q"
  shows "of_int b powi ilog b q \<le> q \<and> q < of_int b powi (ilog b q + 1)"
proof -
  define B :: rat where "B = of_int b"
  have B: "1 < B" using b by (simp add: B_def)
  have floor_bounds: "B ^ nat (digits_len b \<lfloor>r\<rfloor> - 1) \<le> r \<and> r < B ^ nat (digits_len b \<lfloor>r\<rfloor>)"
    if r: "1 \<le> r" for r :: rat
  proof -
    from r have x: "0 < \<lfloor>r\<rfloor>" by simp
    from digits_len_bounds [OF b x]
    have lo: "b ^ nat (digits_len b \<lfloor>r\<rfloor> - 1) \<le> \<lfloor>r\<rfloor>"
      and hi: "\<lfloor>r\<rfloor> + 1 \<le> b ^ nat (digits_len b \<lfloor>r\<rfloor>)"
      by simp_all
    from lo have "(of_int (b ^ nat (digits_len b \<lfloor>r\<rfloor> - 1)) :: rat) \<le> of_int \<lfloor>r\<rfloor>"
      by (simp only: of_int_le_iff)
    also have "\<dots> \<le> r" by simp
    finally have 1: "B ^ nat (digits_len b \<lfloor>r\<rfloor> - 1) \<le> r"
      by (simp add: B_def)
    have "r < of_int (\<lfloor>r\<rfloor> + 1)"
      using floor_correct [of r] by blast
    also from hi have "(of_int (\<lfloor>r\<rfloor> + 1) :: rat) \<le> of_int (b ^ nat (digits_len b \<lfloor>r\<rfloor>))"
      by (simp only: of_int_le_iff)
    finally have 2: "r < B ^ nat (digits_len b \<lfloor>r\<rfloor>)"
      by (simp add: B_def)
    from 1 2 show ?thesis by simp
  qed
  show ?thesis
  proof (cases "1 \<le> q")
    case True
    from True have x: "0 < \<lfloor>q\<rfloor>" by simp
    have d: "0 < digits_len b \<lfloor>q\<rfloor>"
      using x b by (rule digits_len_pos)
    have e: "ilog b q = digits_len b \<lfloor>q\<rfloor> - 1"
      using True by (simp add: ilog_def)
    from d have p1: "B powi (digits_len b \<lfloor>q\<rfloor> - 1) = B ^ nat (digits_len b \<lfloor>q\<rfloor> - 1)"
      by (simp add: power_int_def)
    from d have p2: "B powi (digits_len b \<lfloor>q\<rfloor> - 1 + 1) = B ^ nat (digits_len b \<lfloor>q\<rfloor>)"
      by (simp add: power_int_def)
    from floor_bounds [OF True] show ?thesis
      unfolding e B_def [symmetric] p1 p2 .
  next
    case False
    define r where "r = 1 / q"
    define j where "j = digits_len b \<lfloor>r\<rfloor> - 1"
    from False q have r: "1 \<le> r" by (simp add: r_def)
    from r have "0 < \<lfloor>r\<rfloor>" by simp
    then have "0 < digits_len b \<lfloor>r\<rfloor>"
      using b by (rule digits_len_pos)
    then have j: "0 \<le> j" by (simp add: j_def)
    have jn: "nat (digits_len b \<lfloor>r\<rfloor>) = Suc (nat j)"
      using j by (simp add: j_def)
    from floor_bounds [OF r] have lo: "B ^ nat j \<le> r" and hi: "r < B * B ^ nat j"
      by (simp_all add: j_def [symmetric] jn)
    have Bj: "0 < B ^ nat j" using B by simp
    have qr: "q = 1 / r" using q by (simp add: r_def)
    have r0: "0 < r" using r by simp
    from lo Bj r0 have up: "q \<le> 1 / B ^ nat j"
      unfolding qr by (simp add: frac_le)
    from hi Bj r0 B have low: "1 / (B * B ^ nat j) < q"
      unfolding qr by (simp add: frac_less2)
    have pj: "B powi (- j) = 1 / B ^ nat j"
      using j by (simp add: power_int_def power_inverse divide_inverse)
    have pj1: "B powi (- j - 1) = 1 / (B * B ^ nat j)"
    proof -
      have "nat (1 + j) = Suc (nat j)" using j by simp
      then show ?thesis
        using j by (simp add: power_int_def power_inverse divide_inverse)
    qed
    have pj2: "B powi (- j + 1) = B * B powi (- j)"
      using B power_int_add_1' [of B "- j"] by simp
    have sc: "scale b j q = q * B ^ nat j"
      using j by (simp add: scale_def B_def)
    show ?thesis
    proof (cases "scale b j q = 1")
      case True
      then have e: "ilog b q = - j"
        using False by (simp add: ilog_def Let_def r_def j_def)
      from True sc have "q * B ^ nat j = 1" by simp
      with Bj have qeq: "q = 1 / B ^ nat j"
        by (simp only: mult_eq_1_iff)
      have "q < B * q" using B q by simp
      then show ?thesis
        unfolding e B_def [symmetric] pj2 pj using qeq by simp
    next
      case neq: False
      then have e: "ilog b q = - j - 1"
        using False by (simp add: ilog_def Let_def r_def j_def)
      from neq sc have "q * B ^ nat j \<noteq> 1" by simp
      with Bj have "q \<noteq> 1 / B ^ nat j"
        by (simp only: mult_eq_1_iff not_False_eq_True)
      with up have "q < 1 / B ^ nat j" by simp
      with low show ?thesis
        unfolding e B_def [symmetric] using pj pj1 by simp
    qed
  qed
qed

lemma exp_digits_bounds:
  assumes x: "0 < x" and r: "exp_digits f x = (m, e)"
  shows "10 ^ f \<le> m \<and> m < 10 ^ Suc f"
proof -
  define e0 where "e0 = ilog 10 x"
  define y where "y = scale 10 (int f - e0) x"
  define n where "n = round_half_up y"
  from ilog_bounds [of 10 x] x
  have lo: "10 powi e0 \<le> x" and hi: "x < 10 powi (e0 + 1)"
    by (simp_all add: e0_def)
  have y: "y = x * 10 powi (int f - e0)"
    by (simp add: y_def scale_powi)
  have pos: "(0::rat) < 10 powi (int f - e0)"
    by simp
  have a: "10 powi e0 * 10 powi (int f - e0) = (10::rat) ^ f"
    using power_int_add [of "10::rat" e0 "int f - e0"] by simp
  have "(e0 + 1) + (int f - e0) = int (Suc f)"
    by simp
  then have b: "10 powi (e0 + 1) * 10 powi (int f - e0) = (10::rat) ^ Suc f"
    using power_int_add [of "10::rat" "e0 + 1" "int f - e0"]
    by (simp only: power_int_of_nat) simp
  from lo pos have "10 powi e0 * 10 powi (int f - e0) \<le> y"
    unfolding y by (simp only: mult_le_cancel_right_pos)
  with a have ylo: "10 ^ f \<le> y" by simp
  from hi pos have "y < 10 powi (e0 + 1) * 10 powi (int f - e0)"
    unfolding y by (simp only: mult_less_cancel_right_pos)
  with b have yhi: "y < 10 ^ Suc f" by simp
  from ylo have "of_int (10 ^ f) \<le> y + 1 / 2" by simp
  then have nlo: "10 ^ f \<le> n"
    unfolding n_def round_half_up_def by (simp only: le_floor_iff)
  from yhi have "y + 1 / 2 < of_int (10 ^ Suc f + 1)" by simp
  then have "n < 10 ^ Suc f + 1"
    unfolding n_def round_half_up_def by (simp only: floor_less_iff)
  then have nhi: "n \<le> 10 ^ Suc f" by simp
  have "exp_digits f x = (if n = 10 ^ (f + 1) then (10 ^ f, e0 + 1) else (n, e0))"
    by (simp add: exp_digits_def Let_def n_def y_def e0_def)
  with r have m: "m = (if n = 10 ^ Suc f then 10 ^ f else n)"
    by (auto split: if_splits)
  show ?thesis
  proof (cases "n = 10 ^ Suc f")
    case True
    with m show ?thesis by simp
  next
    case False
    with m nlo nhi show ?thesis by simp
  qed
qed

lemma length_fixed_digits [simp]: "length (fixed_digits k n) = k"
  by (induction k arbitrary: n) simp_all

lemma is_digit_digit_char: "0 \<le> d \<Longrightarrow> d < 10 \<Longrightarrow> is_digit (digit_char d)"
proof -
  assume "0 \<le> d" "d < 10"
  then have "nat d < length ''0123456789''" by simp
  then have "''0123456789'' ! nat d \<in> set ''0123456789''"
    by (rule nth_mem)
  then show ?thesis
    by (simp only: is_digit_def digit_char_def)
qed

lemma fixed_digits_digits: "c \<in> set (fixed_digits k n) \<Longrightarrow> is_digit c"
proof (induction k arbitrary: n)
  case 0
  then show ?case by simp
next
  case (Suc k)
  have "is_digit (digit_char (n mod 10))"
    by (rule is_digit_digit_char) simp_all
  with Suc show ?case by auto
qed

lemma decimal_digits: "c \<in> set (decimal n) \<Longrightarrow> is_digit c"
  by (auto simp: decimal_def is_digit_def dest: fixed_digits_digits split: if_splits)

lemma decimal_length:
  assumes "10 ^ k \<le> n" and "n < 10 ^ Suc k"
  shows "length (decimal n) = Suc k"
proof -
  have "(0::int) < 10 ^ k" by simp
  with assms(1) have "0 < n" by linarith
  moreover have "digits_len 10 n = int (Suc k)"
    using assms by (intro digits_len_eq) simp_all
  ultimately show ?thesis
    by (simp add: decimal_def)
qed

lemma decimal_nonempty: "decimal n \<noteq> []"
proof (cases "n \<le> 0")
  case True
  then show ?thesis by (simp add: decimal_def)
next
  case False
  then have "0 < digits_len 10 n"
    by (intro digits_len_pos) simp_all
  with False have "length (decimal n) \<noteq> 0"
    by (simp add: decimal_def)
  then show ?thesis by auto
qed

section \<open>The shape of exponential and fixed notation\<close>

lemma is_exponential_body:
  assumes "is_digit d" and "length rest = f" and "\<forall>c \<in> set rest. is_digit c"
    and "sg = CHR ''+'' \<or> sg = CHR ''-''" and "ex \<noteq> []" and "\<forall>c \<in> set ex. is_digit c"
    and "s = d # CHR ''.'' # rest @ CHR ''e'' # sg # ex \<or>
         s = CHR ''-'' # d # CHR ''.'' # rest @ CHR ''e'' # sg # ex"
  shows "is_exponential f s"
proof -
  define body where "body = d # CHR ''.'' # rest @ CHR ''e'' # sg # ex"
  from assms(1) have d: "d \<noteq> CHR ''-''"
    using is_digit_not_sign by blast
  from assms(7) d have b: "(if take 1 s = ''-'' then drop 1 s else s) = body"
    by (auto simp: body_def)
  have n0: "body ! 0 = d" and n1: "body ! 1 = CHR ''.''"
    by (simp_all add: body_def)
  have dr: "drop 2 body = rest @ CHR ''e'' # sg # ex"
    by (simp add: body_def)
  have tk: "take f (drop 2 body) = rest"
    using assms(2) by (simp add: dr)
  have "body ! (f + 2) = (rest @ CHR ''e'' # sg # ex) ! f"
    by (simp add: body_def)
  then have ne: "body ! (f + 2) = CHR ''e''"
    using assms(2) by (simp add: nth_append)
  have "body ! (f + 3) = (rest @ CHR ''e'' # sg # ex) ! Suc f"
    by (simp add: body_def)
  then have ns: "body ! (f + 3) = sg"
    using assms(2) by (simp add: nth_append)
  have "f + 4 = Suc (Suc (length rest + 2))"
    using assms(2) by simp
  then have "drop (f + 4) body = drop (length rest + 2) (rest @ CHR ''e'' # sg # ex)"
    by (simp only: body_def drop_Suc_Cons)
  then have de: "drop (f + 4) body = ex"
    by simp
  have len: "f + 4 < length body"
    using assms(2,5) by (simp add: body_def)
  show ?thesis
    unfolding is_exponential_def Let_def b
    using len n0 n1 tk ne ns de assms(1,3,4,6) by simp
qed

lemma toExponential_shape:
  assumes "q \<noteq> 0" and "0 < f"
  shows "is_exponential f (toExponential f (Val q))"
proof -
  obtain m e where me: "exp_digits f \<bar>q\<bar> = (m, e)"
    by (cases "exp_digits f \<bar>q\<bar>")
  from assms(1) have "0 < \<bar>q\<bar>" by simp
  from exp_digits_bounds [OF this me] have m: "10 ^ f \<le> m" "m < 10 ^ Suc f"
    by simp_all
  then have len: "length (decimal m) = Suc f"
    by (rule decimal_length)
  then obtain d rest where ds: "decimal m = d # rest" "length rest = f"
    by (cases "decimal m") simp_all
  have dig: "is_digit d" "\<forall>c \<in> set rest. is_digit c"
    using decimal_digits [of _ m] ds(1) by simp_all
  define sg where "sg = (if e < 0 then CHR ''-'' else CHR ''+'')"
  have te: "toExponential f (Val q) =
      (if q < 0 then ''-'' else []) @ d # CHR ''.'' # rest @ CHR ''e'' # sg # decimal \<bar>e\<bar>"
    using assms me ds(1) by (simp add: toExponential_def Let_def sg_def)
  show ?thesis
  proof (rule is_exponential_body [of d rest f sg "decimal \<bar>e\<bar>"])
    show "\<forall>c \<in> set (decimal \<bar>e\<bar>). is_digit c"
      using decimal_digits by blast
    show "toExponential f (Val q) = d # CHR ''.'' # rest @ CHR ''e'' # sg # decimal \<bar>e\<bar> \<or>
      toExponential f (Val q) = CHR ''-'' # d # CHR ''.'' # rest @ CHR ''e'' # sg # decimal \<bar>e\<bar>"
      by (simp add: te)
  qed (use dig ds(2) decimal_nonempty in \<open>simp_all add: sg_def\<close>)
qed

lemma group3_chars: "c \<in> set (group3 ds) \<Longrightarrow> c \<in> set ds \<or> c = CHR '',''"
proof (induction ds arbitrary: c rule: group3.induct)
  case (1 ds)
  show ?case
  proof (cases "length ds \<le> 3")
    case True
    with "1.prems" show ?thesis by (simp add: group3_short)
  next
    case False
    then have "group3 ds = group3 (take (length ds - 3) ds) @ '','' @ drop (length ds - 3) ds"
      by (subst group3.simps) simp
    with "1.prems" have "c \<in> set (group3 (take (length ds - 3) ds)) \<or> c = CHR '','' \<or>
        c \<in> set (drop (length ds - 3) ds)"
      by auto
    then show ?thesis
      using "1.IH" [OF False] by (auto dest: in_set_takeD in_set_dropD)
  qed
qed

lemma group3_nonempty: "ds \<noteq> [] \<Longrightarrow> group3 ds \<noteq> []"
  by (subst group3.simps) simp

lemma strip_zeros_subset: "c \<in> set (strip_zeros ds) \<Longrightarrow> c \<in> set ds"
  by (auto simp: strip_zeros_def dest: set_dropWhileD)

lemma length_strip_zeros: "length (strip_zeros ds) \<le> length ds"
  by (simp add: strip_zeros_def length_dropWhile_le [of _ "rev ds", simplified])

lemma is_fixed_en_US_parts:
  assumes "ip \<noteq> []" and "\<forall>c \<in> set ip. is_digit c \<or> c = CHR '',''"
    and "length fr \<le> k" and "\<forall>c \<in> set fr. is_digit c"
    and "s = ip @ (if fr = [] then [] else CHR ''.'' # fr) \<or>
         s = CHR ''-'' # ip @ (if fr = [] then [] else CHR ''.'' # fr)"
  shows "is_fixed_en_US k s"
proof -
  define body where "body = ip @ (if fr = [] then [] else CHR ''.'' # fr)"
  have nosign: "x \<noteq> CHR ''.'' \<and> x \<noteq> CHR ''-''" if "x \<in> set ip" for x
  proof -
    from that assms(2) have "is_digit x \<or> x = CHR '',''" by blast
    then show ?thesis
    proof
      assume "is_digit x"
      then show ?thesis by (rule is_digit_not_sign)
    next
      assume "x = CHR '',''"
      then show ?thesis by simp
    qed
  qed
  from assms(1) obtain c cs where ip: "ip = c # cs"
    by (cases ip) simp_all
  then have "c \<noteq> CHR ''-''"
    using nosign [of c] by simp
  with assms(5) ip have b: "(if take 1 s = ''-'' then drop 1 s else s) = body"
    unfolding body_def by (elim disjE) simp_all
  have rest: "takeWhile (\<lambda>c. c \<noteq> CHR ''.'') (if fr = [] then [] else CHR ''.'' # fr) = []"
    "dropWhile (\<lambda>c. c \<noteq> CHR ''.'') (if fr = [] then [] else CHR ''.'' # fr) =
      (if fr = [] then [] else CHR ''.'' # fr)"
    by simp_all
  have tw: "takeWhile (\<lambda>c. c \<noteq> CHR ''.'') body = ip"
    unfolding body_def using nosign
    by (subst takeWhile_append2) (simp_all only: rest append_Nil2 simp_thms)
  have "dropWhile (\<lambda>c. c \<noteq> CHR ''.'') body = (if fr = [] then [] else CHR ''.'' # fr)"
    unfolding body_def using nosign
    by (subst dropWhile_append2) (simp_all only: rest simp_thms)
  then have dw: "drop 1 (dropWhile (\<lambda>c. c \<noteq> CHR ''.'') body) = fr"
    by simp
  show ?thesis
    unfolding is_fixed_en_US_def Let_def b tw dw using assms(1-4) by simp
qed

lemma en_US_fixed: "is_fixed_en_US 10 (en_US (Val q))"
proof (cases "q = 0")
  case True
  then show ?thesis
    by (simp add: en_US_def is_fixed_en_US_def is_digit_def)
next
  case False
  obtain k s e where sh: "shortest_from 17 1 \<bar>q\<bar> = (k, s, e)"
    by (cases "shortest_from 17 1 \<bar>q\<bar>")
  define r where "r = round_half_up (scale 10 (10 + e - int k) (of_int s))"
  define fr where "fr = strip_zeros (fixed_digits 10 (r mod 10 ^ 10))"
  define ip where "ip = group3 (decimal (r div 10 ^ 10))"
  have e: "en_US (Val q) =
      (if q < 0 then ''-'' else []) @ ip @ (if fr = [] then [] else CHR ''.'' # fr)"
    unfolding r_def fr_def ip_def using False sh by (rule en_US_eval) (rule refl)+
  show ?thesis
  proof (rule is_fixed_en_US_parts [of ip fr])
    show "ip \<noteq> []"
      unfolding ip_def by (intro group3_nonempty decimal_nonempty)
    show "\<forall>c \<in> set ip. is_digit c \<or> c = CHR '',''"
    proof
      fix c
      assume "c \<in> set ip"
      then have "c \<in> set (decimal (r div 10 ^ 10)) \<or> c = CHR '',''"
        unfolding ip_def by (rule group3_chars)
      then show "is_digit c \<or> c = CHR '',''"
        by (rule disjE) (simp_all add: decimal_digits)
    qed
    show "length fr \<le> 10"
      unfolding fr_def using length_strip_zeros [of "fixed_digits 10 (r mod 10 ^ 10)"]
      by (simp only: length_fixed_digits)
    show "\<forall>c \<in> set fr. is_digit c"
    proof
      fix c
      assume "c \<in> set fr"
      then have "c \<in> set (fixed_digits 10 (r mod 10 ^ 10))"
        unfolding fr_def by (rule strip_zeros_subset)
      then show "is_digit c"
        by (rule fixed_digits_digits)
    qed
    show "en_US (Val q) = ip @ (if fr = [] then [] else CHR ''.'' # fr) \<or>
      en_US (Val q) = CHR ''-'' # ip @ (if fr = [] then [] else CHR ''.'' # fr)"
      unfolding e by (cases "q < 0") simp_all
  qed
qed

lemma fixed_not_exponential:
  assumes "is_fixed_en_US k s"
  shows "\<not> is_exponential f s"
proof
  assume ex: "is_exponential f s"
  define body where "body = (if take 1 s = ''-'' then drop 1 s else s)"
  define ip where "ip = takeWhile (\<lambda>c. c \<noteq> CHR ''.'') body"
  define rest where "rest = dropWhile (\<lambda>c. c \<noteq> CHR ''.'') body"
  from assms have ipd: "\<forall>c \<in> set ip. is_digit c \<or> c = CHR '',''"
    and frd: "\<forall>c \<in> set (drop 1 rest). is_digit c"
    unfolding is_fixed_en_US_def Let_def body_def [symmetric] ip_def [symmetric]
      rest_def [symmetric] by simp_all
  from ex have len: "f + 2 < length body" and e: "body ! (f + 2) = CHR ''e''"
    unfolding is_exponential_def Let_def body_def [symmetric] by simp_all
  then have "CHR ''e'' \<in> set body"
    using nth_mem [of "f + 2" body] by simp
  moreover have "body = ip @ rest"
    by (simp add: ip_def rest_def)
  ultimately have "CHR ''e'' \<in> set ip \<or> CHR ''e'' \<in> set rest"
    by simp
  then show False
  proof
    assume "CHR ''e'' \<in> set ip"
    with ipd have "is_digit CHR ''e'' \<or> CHR ''e'' = CHR '',''" by blast
    then show False by (simp add: is_digit_def)
  next
    assume r: "CHR ''e'' \<in> set rest"
    then obtain c cs where rest: "rest = c # cs"
      by (cases rest) simp_all
    from rest have "rest \<noteq> []" by simp
    then have "\<not> (hd rest \<noteq> CHR ''.'')"
      unfolding rest_def by (rule hd_dropWhile)
    with rest have "c = CHR ''.''" by simp
    with r rest have "CHR ''e'' \<in> set (drop 1 rest)" by simp
    with frd have "is_digit CHR ''e''" by blast
    then show False by (simp add: is_digit_def)
  qed
qed

section \<open>Division by zero and the formatter\<close>

text \<open>
  C5. For every pair of operands the divide case of \<^verbatim>\<open>evalRPN\<close> yields not-a-number when
  \<^verbatim>\<open>b === 0\<close> and the quotient otherwise; the function is total, so nothing is raised. The
  infix sequence \<open>5 \<div> 0\<close> evaluates to not-a-number, and \<^verbatim>\<open>formatNumber\<close> of not-a-number and
  of every other non-finite number is \<^verbatim>\<open>Error\<close>, whatever the host's locale.
\<close>

theorem divide_by_zero_gives_Error:
  "evalRPN [Num a, Num b, Op Divide] = (if strict_eq b (Val 0) then NaN else num_div a b) \<and>
   evalRPN (toRPN [Num a, Op Divide, Num b]) =
     (if strict_eq b (Val 0) then NaN else num_div a b) \<and>
   evalRPN (toRPN [Num (Val 5), Op Divide, Num (Val 0)]) = NaN \<and>
   formatNumber L NaN = ''Error'' \<and>
   (\<not> isFinite n \<longrightarrow> formatNumber L n = ''Error'')"
proof -
  have "evalRPN [Num a, Num b, Op Divide] = apply_op Divide a b"
    by (simp add: evalRPN_def pop_def)
  moreover have "evalRPN (toRPN [Num (Val 5), Op Divide, Num (Val 0)]) = NaN"
    by (simp add: evalRPN_binary apply_op_def strict_eq_def is_zero_def)
  moreover have "formatNumber L NaN = ''Error''"
    by (simp add: formatNumber_not_finite isFinite_def)
  ultimately show ?thesis
    by (simp add: evalRPN_binary apply_op_def formatNumber_not_finite)
qed

theorem divide_by_zero_gives_Error_witness:
  "evalRPN [Num (Val 6), Num (Val 3), Op Divide] = Val 2 \<and>
   evalRPN [Num (Val 5), Num (Val 0), Op Divide] = NaN \<and>
   \<not> isFinite PosInf \<and> formatNumber en_US PosInf = ''Error''"
  using divide_by_zero_gives_Error [of "Val 6" "Val 3" en_US PosInf]
    divide_by_zero_gives_Error [of "Val 5" "Val 0" en_US PosInf]
  by (simp add: strict_eq_def is_zero_def isFinite_def num_div_def is_inf_def)

text \<open>
  C7. \<^verbatim>\<open>formatNumber\<close> returns \<^verbatim>\<open>Error\<close> for every non-finite number; formats negative zero as
  positive zero; for a finite value \<open>q\<close> it returns \<^verbatim>\<open>toExponential(6)\<close> exactly when
  \<open>\<bar>q\<bar>\<close> is at least \<^verbatim>\<open>1e12\<close>, or is nonzero and less than \<^verbatim>\<open>1e-6\<close> (the binary64 values of
  these literals: \<^verbatim>\<open>1e12\<close> itself is rendered in exponential notation, \<^verbatim>\<open>1e-6\<close> itself is not),
  and that text is exponential notation with six digits after the point;
  otherwise it returns the host's fixed notation with at most ten fraction digits,
  \<^verbatim>\<open>toLocaleString(undefined, { maximumFractionDigits: 10 })\<close>, here \<open>L\<close>, which for the locale
  \<^verbatim>\<open>en-US\<close> is grouped digits with at most ten digits after the point and never exponential
  notation.
\<close>

theorem formatNumber_policy:
  "(\<not> isFinite n \<longrightarrow> formatNumber L n = ''Error'') \<and>
   formatNumber L NegZero = L (Val 0) \<and>
   formatNumber L NegZero = formatNumber L (Val 0) \<and>
   lit_1e12 = Val (10 ^ 12) \<and>
   lit_1e_6 = Val (4722366482869645 / 2 ^ 72) \<and>
   formatNumber L lit_1e12 = toExponential 6 lit_1e12 \<and>
   formatNumber L lit_1e_6 = L lit_1e_6 \<and>
   (10 ^ 12 \<le> \<bar>q\<bar> \<or> (q \<noteq> 0 \<and> \<bar>q\<bar> < 4722366482869645 / 2 ^ 72) \<longrightarrow>
      formatNumber L (Val q) = toExponential 6 (Val q) \<and>
      is_exponential 6 (formatNumber L (Val q))) \<and>
   (\<not> (10 ^ 12 \<le> \<bar>q\<bar> \<or> (q \<noteq> 0 \<and> \<bar>q\<bar> < 4722366482869645 / 2 ^ 72)) \<longrightarrow>
      formatNumber L (Val q) = L (Val q) \<and>
      is_fixed_en_US 10 (formatNumber en_US (Val q)) \<and>
      \<not> is_exponential 6 (formatNumber en_US (Val q)))"
proof -
  have "is_exponential 6 (toExponential 6 (Val q))"
    if "10 ^ 12 \<le> \<bar>q\<bar> \<or> (q \<noteq> 0 \<and> \<bar>q\<bar> < 4722366482869645 / 2 ^ 72)"
  proof -
    from that have "q \<noteq> 0" by auto
    then show ?thesis by (rule toExponential_shape) simp
  qed
  moreover have "\<not> is_exponential 6 (en_US (Val r))" for r
    using en_US_fixed by (rule fixed_not_exponential)
  ultimately show ?thesis
    by (simp add: formatNumber_not_finite formatNumber_NegZero formatNumber_Val lit_1e12_eq
        lit_1e_6_eq en_US_fixed)
qed

theorem formatNumber_policy_witness:
  "\<not> isFinite NaN \<and> formatNumber en_US NaN = ''Error'' \<and>
   formatNumber en_US (Val (10 ^ 12)) = ''1.000000e+12'' \<and>
   is_exponential 6 ''1.000000e+12'' \<and>
   formatNumber en_US (Val 15) = ''15'' \<and>
   is_fixed_en_US 10 ''15'' \<and> \<not> is_exponential 6 ''15''"
proof -
  have nan: "\<not> isFinite NaN"
    by (simp add: isFinite_def)
  have big: "10 ^ 12 \<le> \<bar>10 ^ 12 :: rat\<bar> \<or>
      ((10 ^ 12 :: rat) \<noteq> 0 \<and> \<bar>10 ^ 12 :: rat\<bar> < 4722366482869645 / 2 ^ 72)"
    by simp
  have mid: "\<not> (10 ^ 12 \<le> \<bar>15 :: rat\<bar> \<or>
      ((15 :: rat) \<noteq> 0 \<and> \<bar>15 :: rat\<bar> < 4722366482869645 / 2 ^ 72))"
    by simp
  have "formatNumber en_US NaN = ''Error''"
    using formatNumber_policy [of NaN en_US 15] nan by blast
  moreover have "formatNumber en_US (Val (10 ^ 12)) = toExponential 6 (Val (10 ^ 12))"
    using formatNumber_policy [of NaN en_US "10 ^ 12"] big by blast
  moreover have "is_exponential 6 (formatNumber en_US (Val (10 ^ 12)))"
    using formatNumber_policy [of NaN en_US "10 ^ 12"] big by blast
  moreover have "formatNumber en_US (Val 15) = en_US (Val 15)"
    using formatNumber_policy [of NaN en_US 15] mid by blast
  moreover have "is_fixed_en_US 10 (formatNumber en_US (Val 15))"
    using formatNumber_policy [of NaN en_US 15] mid by blast
  moreover have "\<not> is_exponential 6 (formatNumber en_US (Val 15))"
    using formatNumber_policy [of NaN en_US 15] mid by blast
  ultimately show ?thesis
    using nan by (simp only: toExponential_1e12 en_US_15 simp_thms)
qed

section \<open>The session\<close>

lemma run_snoc: "run L (acts @ [a]) = perform L (run L acts) a"
  by (simp add: run_def)

lemma run_Nil: "run L [] = initial"
  by (simp add: run_def)

lemma reachable_run: "\<forall>a \<in> set acts. valid_action a \<Longrightarrow> reachable L (run L acts)"
proof (induction acts rule: rev_induct)
  case Nil
  show ?case by (simp add: run_Nil reachable_initial)
next
  case (snoc a acts)
  then show ?case by (simp add: run_snoc reachable_step)
qed

lemma run_divide_by_zero:
  "run L [Digit CHR ''5'', Operator Divide, Digit CHR ''0'', Equals] =
     \<lparr>display = ''Error'', tokens = [], justEvaluated = True\<rparr>"
  by (simp add: run_def initial_def inputDigit_def inputOperator_def evaluate_def
      parseFloat_5 parseFloat_0 isNaN_def evalRPN_binary apply_op_def strict_eq_def
      is_zero_def formatNumber_not_finite isFinite_def)

lemma run_5_times_3:
  "run L [Digit CHR ''5'', Operator Times, Digit CHR ''3'', Equals] =
     \<lparr>display = L (Val 15), tokens = [], justEvaluated = True\<rparr>"
  by (simp add: run_def initial_def inputDigit_def inputOperator_def evaluate_def
      parseFloat_5 parseFloat_3 isNaN_def evalRPN_binary apply_op_def num_mul_5_3
      formatNumber_Val)

lemma run_5_plus_times_3:
  "run L [Digit CHR ''5'', Operator Plus, Operator Times, Digit CHR ''3'', Equals] =
     \<lparr>display = L (Val 15), tokens = [], justEvaluated = True\<rparr>"
  by (simp add: run_def initial_def inputDigit_def inputOperator_def evaluate_def
      parseFloat_5 parseFloat_3 isNaN_def evalRPN_binary apply_op_def num_mul_5_3
      formatNumber_Val)

lemma run_1_5:
  "run en_US [Digit CHR ''1'', Decimal, Digit CHR ''5'', Equals] =
     \<lparr>display = ''1.5'', tokens = [], justEvaluated = True\<rparr>"
  by (simp add: run_def initial_def inputDigit_def inputDecimal_def evaluate_def
      parseFloat_1_5 isNaN_def evalRPN_single formatNumber_Val en_US_1_5)


section \<open>Invariants of the pending token sequence\<close>

lemma pending_shape_inputOperator:
  "pending_shape (tokens s) \<Longrightarrow> pending_shape (tokens (inputOperator t s))"
  by (auto simp: pending_shape_def inputOperator_def Let_def)

lemma tokens_unchanged:
  "tokens (inputDigit d s) = tokens s"
  "tokens (inputDecimal s) = tokens s"
  "tokens (backspace s) = tokens s"
  "tokens (toggleSign s) = tokens s"
  "tokens (percent s) = tokens s"
  by (simp_all add: inputDigit_def inputDecimal_def backspace_def toggleSign_def percent_def
      Let_def)

lemma tokens_Equals: "tokens (perform L s Equals) = []"
  by (simp add: evaluate_def Let_def)

lemma tokens_Clear: "tokens (perform L s Clear) = []"
  by (simp add: clearAll_def)

lemma pending_shape_perform:
  assumes "pending_shape (tokens s)"
  shows "pending_shape (tokens (perform L s a))"
proof (cases a)
  case (Operator t)
  with assms show ?thesis by (simp add: pending_shape_inputOperator)
next
  case Equals
  then show ?thesis by (simp only: tokens_Equals) (simp add: pending_shape_def)
next
  case Clear
  then show ?thesis by (simp only: tokens_Clear) (simp add: pending_shape_def)
qed (use assms in \<open>simp_all add: tokens_unchanged\<close>)

lemma reachable_pending_shape: "reachable L s \<Longrightarrow> pending_shape (tokens s)"
proof (induction rule: reachable.induct)
  case reachable_initial
  show ?case by (simp add: initial_def pending_shape_def)
next
  case (reachable_step s a)
  then show ?case by (simp add: pending_shape_perform)
qed

lemma flag_perform:
  "(justEvaluated s \<longrightarrow> tokens s = []) \<Longrightarrow>
   justEvaluated (perform L s a) \<longrightarrow> tokens (perform L s a) = []"
  by (cases a)
    (auto simp: inputDigit_def inputDecimal_def backspace_def toggleSign_def percent_def
      inputOperator_def evaluate_def clearAll_def Let_def)

lemma reachable_flag: "reachable L s \<Longrightarrow> justEvaluated s \<longrightarrow> tokens s = []"
proof (induction rule: reachable.induct)
  case reachable_initial
  show ?case by (simp add: initial_def)
next
  case (reachable_step s a)
  then show ?case by (intro flag_perform)
qed

section \<open>The display buffer while typing\<close>






















lemma update_last: "xs \<noteq> [] \<Longrightarrow> xs[length xs - Suc 0 := x] = butlast xs @ [x]"
  by (induction xs rule: rev_induct) simp_all

lemma nth_last: "xs \<noteq> [] \<Longrightarrow> xs ! (length xs - Suc 0) = last xs"
  by (simp add: last_conv_nth)

lemma inputOperator_replace:
  "tokens s \<noteq> [] \<Longrightarrow> is_op (last (tokens s)) \<Longrightarrow>
   inputOperator t s = s\<lparr>tokens := butlast (tokens s) @ [Op t]\<rparr>"
  by (simp add: inputOperator_def Let_def update_last nth_last)

lemma inputOperator_append:
  "\<not> (tokens s \<noteq> [] \<and> is_op (last (tokens s))) \<Longrightarrow>
   inputOperator t s =
     \<lparr>display = ''0'',
      tokens = (if isNaN (parseFloat (display s)) then tokens s
                else tokens s @ [Num (parseFloat (display s))]) @ [Op t],
      justEvaluated = False\<rparr>"
  by (auto simp: inputOperator_def Let_def nth_last)

section \<open>The just-evaluated flag\<close>

text \<open>
  C2, as the specification states it, fails: after \<open>5 \<times> 3 =\<close> the flag is true and the
  pending sequence is empty, and operator entry appends the result and the operator and
  sets the flag to false.
\<close>

theorem inputOperator_resets_flag_counterexample:
  "reachable en_US (run en_US [Digit CHR ''5'', Operator Times, Digit CHR ''3'', Equals]) \<and>
   run en_US [Digit CHR ''5'', Operator Times, Digit CHR ''3'', Equals] =
     \<lparr>display = ''15'', tokens = [], justEvaluated = True\<rparr> \<and>
   inputOperator Plus \<lparr>display = ''15'', tokens = [], justEvaluated = True\<rparr> =
     \<lparr>display = ''0'', tokens = [Num (Val 15), Op Plus], justEvaluated = False\<rparr>"
proof -
  have "reachable en_US (run en_US [Digit CHR ''5'', Operator Times, Digit CHR ''3'', Equals])"
    by (rule reachable_run) (simp add: is_digit_def)
  moreover have "parseFloat ''15'' = Val 15"
    by (simp add: parseFloat_eval)
  ultimately show ?thesis
    by (simp add: run_5_times_3 en_US_15 inputOperator_append isNaN_def)
qed

text \<open>
  C2, amended. The just-evaluated flag is set by \<^verbatim>\<open>evaluate\<close> and is false after digit and
  decimal entry. Operator entry leaves it unchanged only when it replaces a trailing
  operator; when it appends, it sets the flag to false, and that is what happens in every
  reachable state whose flag is true, since there the pending sequence is empty.
\<close>

theorem operator_entry_flag:
  "justEvaluated (evaluate L s) \<and>
   \<not> justEvaluated (inputDigit d s) \<and>
   \<not> justEvaluated (inputDecimal s) \<and>
   (tokens s \<noteq> [] \<and> is_op (last (tokens s)) \<longrightarrow>
      justEvaluated (inputOperator t s) = justEvaluated s) \<and>
   (\<not> (tokens s \<noteq> [] \<and> is_op (last (tokens s))) \<longrightarrow>
      \<not> justEvaluated (inputOperator t s)) \<and>
   (reachable L s \<and> justEvaluated s \<longrightarrow> \<not> justEvaluated (inputOperator t s))"
proof -
  have "\<not> justEvaluated (inputOperator t s)" if "reachable L s" "justEvaluated s"
    using reachable_flag [OF that(1)] that(2) by (simp add: inputOperator_append)
  then show ?thesis
    by (auto simp: evaluate_def inputDigit_def inputDecimal_def Let_def inputOperator_replace
        inputOperator_append)
qed

theorem operator_entry_flag_witness:
  "reachable en_US (run en_US [Digit CHR ''5'', Operator Times, Digit CHR ''3'', Equals]) \<and>
   justEvaluated (run en_US [Digit CHR ''5'', Operator Times, Digit CHR ''3'', Equals]) \<and>
   \<not> justEvaluated
       (inputOperator Plus
          (run en_US [Digit CHR ''5'', Operator Times, Digit CHR ''3'', Equals])) \<and>
   justEvaluated
     (inputOperator Plus \<lparr>display = ''7'', tokens = [Op Minus], justEvaluated = True\<rparr>)"
proof -
  have r: "reachable en_US (run en_US [Digit CHR ''5'', Operator Times, Digit CHR ''3'', Equals])"
    by (rule reachable_run) (simp add: is_digit_def)
  have j: "justEvaluated (run en_US [Digit CHR ''5'', Operator Times, Digit CHR ''3'', Equals])"
    by (simp add: run_5_times_3)
  from r j
    operator_entry_flag [of en_US
      "run en_US [Digit CHR ''5'', Operator Times, Digit CHR ''3'', Equals]" "[]" Plus]
    operator_entry_flag [of en_US
      "\<lparr>display = ''7'', tokens = [Op Minus], justEvaluated = True\<rparr>" "[]" Plus]
  show ?thesis by simp
qed

section \<open>Changing the operator\<close>

text \<open>
  C6. When the pending sequence ends in an operator, \<^verbatim>\<open>inputOperator\<close> replaces that operator
  and leaves the display, the flag and the numeric tokens unchanged. So the key presses
  \<open>5 + \<times> 3 =\<close> lead to the same session as \<open>5 \<times> 3 =\<close>: the display is the host's rendering
  of 15, which is \<^verbatim>\<open>15\<close> in the locale \<^verbatim>\<open>en-US\<close>.
\<close>

theorem operator_replacement:
  "(tokens s \<noteq> [] \<and> is_op (last (tokens s)) \<longrightarrow>
      inputOperator t s = s\<lparr>tokens := butlast (tokens s) @ [Op t]\<rparr> \<and>
      display (inputOperator t s) = display s \<and>
      justEvaluated (inputOperator t s) = justEvaluated s \<and>
      filter is_num (tokens (inputOperator t s)) = filter is_num (tokens s)) \<and>
   run L [Digit CHR ''5'', Operator Plus, Operator Times, Digit CHR ''3'', Equals] =
     run L [Digit CHR ''5'', Operator Times, Digit CHR ''3'', Equals] \<and>
   run L [Digit CHR ''5'', Operator Plus, Operator Times, Digit CHR ''3'', Equals] =
     \<lparr>display = L (Val 15), tokens = [], justEvaluated = True\<rparr> \<and>
   display (run en_US [Digit CHR ''5'', Operator Plus, Operator Times, Digit CHR ''3'', Equals])
     = ''15''"
proof -
  have "filter is_num (butlast ts @ [Op t]) = filter is_num ts"
    if "ts \<noteq> []" "is_op (last ts)" for ts
    using that by (induction ts rule: rev_induct) (auto elim: is_op.elims)
  then show ?thesis
    by (simp add: inputOperator_replace run_5_plus_times_3 run_5_times_3 en_US_15)
qed

theorem operator_replacement_witness:
  "tokens \<lparr>display = ''0'', tokens = [Num (Val 5), Op Plus], justEvaluated = False\<rparr> \<noteq> [] \<and>
   is_op (last [Num (Val 5), Op Plus]) \<and>
   inputOperator Times \<lparr>display = ''0'', tokens = [Num (Val 5), Op Plus], justEvaluated = False\<rparr>
     = \<lparr>display = ''0'', tokens = [Num (Val 5), Op Times], justEvaluated = False\<rparr>"
  using operator_replacement
    [of "\<lparr>display = ''0'', tokens = [Num (Val 5), Op Plus], justEvaluated = False\<rparr>" Times en_US]
  by simp

section \<open>Decimal entry\<close>

text \<open>
  C9, as the specification states it, fails on a buffer that shows a result: after
  \<open>1 . 5 =\<close> the buffer \<^verbatim>\<open>1.5\<close> contains a decimal point and the flag is true, and
  \<^verbatim>\<open>inputDecimal\<close> is not a no-op there: it starts the fresh buffer \<^verbatim>\<open>0.\<close> and clears the flag.
\<close>

theorem inputDecimal_after_result_counterexample:
  "reachable en_US (run en_US [Digit CHR ''1'', Decimal, Digit CHR ''5'', Equals]) \<and>
   run en_US [Digit CHR ''1'', Decimal, Digit CHR ''5'', Equals] =
     \<lparr>display = ''1.5'', tokens = [], justEvaluated = True\<rparr> \<and>
   CHR ''.'' \<in> set ''1.5'' \<and>
   inputDecimal \<lparr>display = ''1.5'', tokens = [], justEvaluated = True\<rparr> =
     \<lparr>display = ''0.'', tokens = [], justEvaluated = False\<rparr> \<and>
   inputDecimal \<lparr>display = ''1.5'', tokens = [], justEvaluated = True\<rparr> \<noteq>
     \<lparr>display = ''1.5'', tokens = [], justEvaluated = True\<rparr>"
proof -
  have "reachable en_US (run en_US [Digit CHR ''1'', Decimal, Digit CHR ''5'', Equals])"
    by (rule reachable_run) (simp add: is_digit_def)
  then show ?thesis
    by (simp add: run_1_5 inputDecimal_def)
qed

text \<open>
  C9, amended. While the just-evaluated flag is false, \<^verbatim>\<open>inputDecimal\<close> appends a decimal
  point only when the buffer has none and is a no-op otherwise; when the flag is true it
  starts the fresh buffer \<^verbatim>\<open>0.\<close> and clears the flag. In every state, applying it twice gives
  what applying it once gives, and two presses on the fresh buffer yield \<^verbatim>\<open>0.\<close>.
\<close>

theorem inputDecimal_cases:
  "(\<not> justEvaluated s \<and> CHR ''.'' \<in> set (display s) \<longrightarrow> inputDecimal s = s) \<and>
   (\<not> justEvaluated s \<and> CHR ''.'' \<notin> set (display s) \<longrightarrow>
      inputDecimal s = s\<lparr>display := display s @ ''.''\<rparr>) \<and>
   (justEvaluated s \<longrightarrow> inputDecimal s = s\<lparr>display := ''0.'', justEvaluated := False\<rparr>) \<and>
   inputDecimal (inputDecimal s) = inputDecimal s \<and>
   run L [Decimal] = \<lparr>display = ''0.'', tokens = [], justEvaluated = False\<rparr> \<and>
   run L [Decimal, Decimal] = \<lparr>display = ''0.'', tokens = [], justEvaluated = False\<rparr>"
  by (simp add: inputDecimal_def run_def initial_def)

theorem inputDecimal_cases_witness:
  "\<not> justEvaluated \<lparr>display = ''2.5'', tokens = [], justEvaluated = False\<rparr> \<and>
   CHR ''.'' \<in> set ''2.5'' \<and>
   inputDecimal \<lparr>display = ''2.5'', tokens = [], justEvaluated = False\<rparr> =
     \<lparr>display = ''2.5'', tokens = [], justEvaluated = False\<rparr> \<and>
   inputDecimal \<lparr>display = ''25'', tokens = [], justEvaluated = False\<rparr> =
     \<lparr>display = ''25.'', tokens = [], justEvaluated = False\<rparr> \<and>
   inputDecimal \<lparr>display = ''25'', tokens = [], justEvaluated = True\<rparr> =
     \<lparr>display = ''0.'', tokens = [], justEvaluated = False\<rparr>"
  using
    inputDecimal_cases [of "\<lparr>display = ''2.5'', tokens = [], justEvaluated = False\<rparr>" en_US]
    inputDecimal_cases [of "\<lparr>display = ''25'', tokens = [], justEvaluated = False\<rparr>" en_US]
    inputDecimal_cases [of "\<lparr>display = ''25'', tokens = [], justEvaluated = True\<rparr>" en_US]
  by simp

section \<open>The shape of the pending token sequence\<close>

text \<open>
  C8, as the specification states it, fails in its account of \<^verbatim>\<open>inputOperator\<close>: after
  \<open>5 \<div> 0 =\<close> the buffer is \<^verbatim>\<open>Error\<close>, which does not parse, and the pending sequence is empty;
  operator entry then appends the operator alone, neither a pair nor a replacement.
\<close>

theorem inputOperator_lone_operator_counterexample:
  "reachable en_US (run en_US [Digit CHR ''5'', Operator Divide, Digit CHR ''0'', Equals]) \<and>
   run en_US [Digit CHR ''5'', Operator Divide, Digit CHR ''0'', Equals] =
     \<lparr>display = ''Error'', tokens = [], justEvaluated = True\<rparr> \<and>
   tokens (inputOperator Plus (run en_US [Digit CHR ''5'', Operator Divide, Digit CHR ''0'', Equals])) = [Op Plus] \<and>
   \<not> (\<exists>v. tokens (inputOperator Plus (run en_US [Digit CHR ''5'', Operator Divide, Digit CHR ''0'', Equals])) =
          tokens (run en_US [Digit CHR ''5'', Operator Divide, Digit CHR ''0'', Equals]) @ [Num v, Op Plus]) \<and>
   \<not> (tokens (run en_US [Digit CHR ''5'', Operator Divide, Digit CHR ''0'', Equals]) \<noteq> [] \<and>
      is_op (last (tokens (run en_US [Digit CHR ''5'', Operator Divide, Digit CHR ''0'', Equals]))) \<and>
      tokens (inputOperator Plus (run en_US [Digit CHR ''5'', Operator Divide, Digit CHR ''0'', Equals])) =
        butlast (tokens (run en_US [Digit CHR ''5'', Operator Divide, Digit CHR ''0'', Equals])) @ [Op Plus])"
proof -
  have "reachable en_US (run en_US [Digit CHR ''5'', Operator Divide, Digit CHR ''0'', Equals])"
    by (rule reachable_run) (simp add: is_digit_def)
  then show ?thesis
    by (simp add: run_divide_by_zero inputOperator_append parseFloat_Error isNaN_def)
qed

lemma pending_shape_not_two:
  "pending_shape ts \<Longrightarrow> \<not> ends_two_nums ts \<and> \<not> ends_two_ops ts"
  by (auto simp: pending_shape_def ends_two_nums_def ends_two_ops_def)

text \<open>
  C8, amended. In every reachable state the pending token sequence does not end in two
  numeric tokens nor in two operator tokens: it is empty, a lone operator, or a number
  followed by an operator. \<^verbatim>\<open>inputOperator\<close> replaces a trailing operator, or else appends the
  buffer's number and the operator when the buffer parses, and the operator alone when it
  does not. No other operation appends a token: digit and decimal entry, backspace, sign
  and percent leave the sequence as it is, \<^verbatim>\<open>evaluate\<close> and \<^verbatim>\<open>clearAll\<close> empty it.
\<close>

theorem pending_sequence_invariant:
  "reachable L s \<longrightarrow>
     \<not> ends_two_nums (tokens s) \<and> \<not> ends_two_ops (tokens s) \<and>
     pending_shape (tokens s) \<and>
     tokens (inputOperator t s) =
       (if tokens s \<noteq> [] \<and> is_op (last (tokens s)) then butlast (tokens s) @ [Op t]
        else if isNaN (parseFloat (display s)) then tokens s @ [Op t]
        else tokens s @ [Num (parseFloat (display s)), Op t]) \<and>
     tokens (inputDigit d s) = tokens s \<and>
     tokens (inputDecimal s) = tokens s \<and>
     tokens (backspace s) = tokens s \<and>
     tokens (toggleSign s) = tokens s \<and>
     tokens (percent s) = tokens s \<and>
     tokens (evaluate L s) = [] \<and>
     tokens (clearAll s) = []"
proof
  assume r: "reachable L s"
  have "tokens (inputOperator t s) =
       (if tokens s \<noteq> [] \<and> is_op (last (tokens s)) then butlast (tokens s) @ [Op t]
        else if isNaN (parseFloat (display s)) then tokens s @ [Op t]
        else tokens s @ [Num (parseFloat (display s)), Op t])"
    by (simp add: inputOperator_replace inputOperator_append)
  moreover have "tokens (evaluate L s) = []"
    using tokens_Equals [of L s] by simp
  moreover have "tokens (clearAll s) = []"
    by (simp add: clearAll_def)
  ultimately show "\<not> ends_two_nums (tokens s) \<and> \<not> ends_two_ops (tokens s) \<and>
     pending_shape (tokens s) \<and>
     tokens (inputOperator t s) =
       (if tokens s \<noteq> [] \<and> is_op (last (tokens s)) then butlast (tokens s) @ [Op t]
        else if isNaN (parseFloat (display s)) then tokens s @ [Op t]
        else tokens s @ [Num (parseFloat (display s)), Op t]) \<and>
     tokens (inputDigit d s) = tokens s \<and>
     tokens (inputDecimal s) = tokens s \<and>
     tokens (backspace s) = tokens s \<and>
     tokens (toggleSign s) = tokens s \<and>
     tokens (percent s) = tokens s \<and>
     tokens (evaluate L s) = [] \<and>
     tokens (clearAll s) = []"
    using pending_shape_not_two [OF reachable_pending_shape [OF r]]
      reachable_pending_shape [OF r]
    by (simp only: tokens_unchanged simp_thms)
qed

theorem pending_sequence_invariant_witness:
  "reachable en_US (run en_US [Digit CHR ''5'', Operator Plus]) \<and>
   tokens (run en_US [Digit CHR ''5'', Operator Plus]) = [Num (Val 5), Op Plus] \<and>
   \<not> ends_two_nums (tokens (run en_US [Digit CHR ''5'', Operator Plus])) \<and>
   \<not> ends_two_ops (tokens (run en_US [Digit CHR ''5'', Operator Plus])) \<and>
   tokens (inputOperator Times (run en_US [Digit CHR ''5'', Operator Plus])) =
     [Num (Val 5), Op Times]"
proof -
  have r: "reachable en_US (run en_US [Digit CHR ''5'', Operator Plus])"
    by (rule reachable_run) (simp add: is_digit_def)
  have t: "tokens (run en_US [Digit CHR ''5'', Operator Plus]) = [Num (Val 5), Op Plus]"
    by (simp add: run_def initial_def inputDigit_def inputOperator_append parseFloat_5 isNaN_def)
  from r t
    pending_sequence_invariant
      [of en_US "run en_US [Digit CHR ''5'', Operator Plus]" Times "[]"]
  show ?thesis by simp
qed

section \<open>The shape of the display buffer\<close>




end
